theory Spec2Isabelle
  imports Main
begin

section \<open>The VDDK handlers of the vSphere provider (vddk.go)\<close>

text \<open>
  The file \<^verbatim>\<open>pkg/controller/provider/web/vsphere/vddk.go\<close> holds three gin handlers
  (\<^verbatim>\<open>BuildImage\<close>, \<^verbatim>\<open>ImageUrl\<close>, \<^verbatim>\<open>DownloadVddkTar\<close>), the build trigger
  \<^verbatim>\<open>BuildAndPushImage\<close> and the busy lease: the package variables \<^verbatim>\<open>buildLock\<close> and
  \<^verbatim>\<open>isBusy\<close> with \<^verbatim>\<open>resetBusy\<close> and \<^verbatim>\<open>resetBusyAfter\<close>.

  Everything outside the package is an input of the model: the result of \<^verbatim>\<open>h.Prepare\<close>,
  of the multipart form, of the file system calls and of the cluster API are fields of the
  request records below. Errors are the text that Go's \<^verbatim>\<open>%v\<close> prints for them.
\<close>

subsection \<open>Constants\<close>

type_synonym bytes = string

definition Second :: int where
  "Second = 1000000000"

definition waitForDownload :: int where
  "waitForDownload = 15 * Second"

definition buildConfigName :: string where
  "buildConfigName = ''vddk''"

definition registryImageTag :: string where
  "registryImageTag = ''vddk:latest''"

definition vddkTarFileName :: string where
  "vddkTarFileName = ''vddk.tar.gz''"

definition uploadDir :: string where
  "uploadDir = ''/tmp/uploads''"

definition StatusOK :: nat where
  "StatusOK = 200"

definition StatusBadRequest :: nat where
  "StatusBadRequest = 400"

definition StatusNotFound :: nat where
  "StatusNotFound = 404"

definition StatusInternalServerError :: nat where
  "StatusInternalServerError = 500"

definition StatusServiceUnavailable :: nat where
  "StatusServiceUnavailable = 503"

text \<open>\<^verbatim>\<open>filepath.Join(uploadDir, vddkTarFileName)\<close>: both parts are clean already.\<close>

definition filePath :: string where
  "filePath = uploadDir @ ''/'' @ vddkTarFileName"

text \<open>\<^verbatim>\<open>os.ErrInvalid\<close>, what every method of a nil \<^verbatim>\<open>*os.File\<close> returns.\<close>

definition ErrInvalid :: string where
  "ErrInvalid = ''invalid argument''"

subsection \<open>Process state\<close>

text \<open>
  \<^verbatim>\<open>isBusy\<close> and \<^verbatim>\<open>buildLock\<close> are the package variables (\<open>buildLock\<close> is \<open>True\<close> while
  the mutex is held). \<open>sleepers\<close> are the goroutines started by \<^verbatim>\<open>resetBusyAfter\<close> that
  have not run \<^verbatim>\<open>resetBusy\<close> yet, each with the time at which its \<^verbatim>\<open>time.Sleep\<close> ends;
  \<open>clock\<close> is the current time in nanoseconds. \<open>dirExists\<close> and \<open>staged\<close> are the upload
  directory and the content of the file \<open>filePath\<close> (\<open>None\<close>: no such file).
\<close>

record sys =
  isBusy :: bool
  buildLock :: bool
  sleepers :: "int list"
  clock :: int
  dirExists :: bool
  staged :: "bytes option"

text \<open>
  What a call does when it does not return: \<^verbatim>\<open>Lock\<close> on a held mutex waits
  (\<open>Blocks\<close>), \<^verbatim>\<open>Unlock\<close> of a free mutex is a fatal runtime error (\<open>Fatal\<close>).
\<close>

datatype 'a go = Returns 'a | Blocks | Fatal

fun and_then :: "'a go \<Rightarrow> ('a \<Rightarrow> 'b go) \<Rightarrow> 'b go" where
  "and_then (Returns x) f = f x"
| "and_then Blocks f = Blocks"
| "and_then Fatal f = Fatal"

definition Lock :: "sys \<Rightarrow> sys go" where
  "Lock s = (if buildLock s then Blocks else Returns (s\<lparr>buildLock := True\<rparr>))"

definition Unlock :: "sys \<Rightarrow> sys go" where
  "Unlock s = (if buildLock s then Returns (s\<lparr>buildLock := False\<rparr>) else Fatal)"

subsection \<open>The gin context\<close>

text \<open>
  \<open>written\<close> is what the handler sent through the context, in order; \<open>calls\<close> records
  the calls the handler made on the shared state, the file system and the cluster.
\<close>

datatype envelope = Envelope string string "(string \<times> string) list option"

datatype reply =
    Status nat
  | ForkliftError string
  | JSON nat envelope
  | Header string string
  | File bytes

datatype effect =
    MutexLock | ReadIsBusy | WriteIsBusy bool | MutexUnlock | GoSleepThenReset int
  | FormFile | FileOpen | MkdirAll | OsCreate | IoCopy
  | ReadNamespaceFile | InClusterConfig | NewBuildClient | Instantiate
  | NewImageClient | GetImageStreamTag
  | OsStat | ServeFile

record ctx =
  written :: "reply list"
  calls :: "effect list"

definition ctx0 :: ctx where
  "ctx0 = \<lparr>written = [], calls = []\<rparr>"

definition send :: "reply \<Rightarrow> ctx \<Rightarrow> ctx" where
  "send r c = c\<lparr>written := written c @ [r]\<rparr>"

definition call :: "effect \<Rightarrow> ctx \<Rightarrow> ctx" where
  "call e c = c\<lparr>calls := calls c @ [e]\<rparr>"

definition JSONError :: "ctx \<Rightarrow> nat \<Rightarrow> string \<Rightarrow> ctx" where
  "JSONError c code msg = send (JSON code (Envelope ''error'' msg None)) c"

definition JSONSuccess :: "ctx \<Rightarrow> string \<Rightarrow> (string \<times> string) list option \<Rightarrow> ctx" where
  "JSONSuccess c msg data = send (JSON StatusOK (Envelope ''success'' msg data)) c"

subsection \<open>The cluster\<close>

datatype lookup = TagNotFound | TagError string | TagFound string

record cluster =
  readNamespaceFile :: "string + string"
  trimSpace :: "string \<Rightarrow> string"
  inClusterConfig :: "string option"
  newBuildClient :: "string option"
  instantiate :: "string \<Rightarrow> string \<Rightarrow> string option"
  newImageClient :: "string option"
  getImageStreamTag :: "string \<Rightarrow> string \<Rightarrow> lookup"

definition currentNamespace :: "cluster \<Rightarrow> string + string" where
  "currentNamespace k =
     (case readNamespaceFile k of
        Inl err \<Rightarrow> Inl (''could not read byteContent file: '' @ err)
      | Inr byteContent \<Rightarrow>
          (let namespace = trimSpace k byteContent
           in if namespace = [] then Inl ''file was empty'' else Inr namespace))"

definition BuildAndPushImage :: "cluster \<Rightarrow> effect list \<times> string option" where
  "BuildAndPushImage k =
     (case currentNamespace k of
        Inl err \<Rightarrow> ([ReadNamespaceFile], Some (''failed to get the pod namespace: '' @ err))
      | Inr namespace \<Rightarrow>
     (case inClusterConfig k of
        Some err \<Rightarrow> ([ReadNamespaceFile, InClusterConfig], Some (''load kube config: '' @ err))
      | None \<Rightarrow>
     (case newBuildClient k of
        Some err \<Rightarrow> ([ReadNamespaceFile, InClusterConfig, NewBuildClient],
                     Some (''create build client: '' @ err))
      | None \<Rightarrow>
     (case instantiate k namespace buildConfigName of
        Some err \<Rightarrow> ([ReadNamespaceFile, InClusterConfig, NewBuildClient, Instantiate],
                     Some (''start build: '' @ err))
      | None \<Rightarrow> ([ReadNamespaceFile, InClusterConfig, NewBuildClient, Instantiate], None)))))"

definition imageReference :: "cluster \<Rightarrow> string \<Rightarrow> string \<Rightarrow> (string \<times> bool) \<times> string option" where
  "imageReference k namespace tag =
     (case getImageStreamTag k namespace tag of
        TagNotFound \<Rightarrow> (([], False), None)
      | TagError err \<Rightarrow>
          (([], False), Some (''error: '' @ err @ ''. could not get ImageStreamTag: '' @ tag))
      | TagFound ref \<Rightarrow> ((ref, True), None))"

subsection \<open>The busy lease\<close>

definition resetBusy :: "sys \<Rightarrow> sys go" where
  "resetBusy s = and_then (Lock s) (\<lambda>s1. Unlock (s1\<lparr>isBusy := False\<rparr>))"

text \<open>
  \<^verbatim>\<open>resetBusyAfter\<close> starts a goroutine and returns. \<^verbatim>\<open>time.Sleep\<close> returns at once for
  a duration that is not positive.
\<close>

definition resetBusyAfter :: "int \<Rightarrow> sys \<Rightarrow> sys" where
  "resetBusyAfter timeout s = s\<lparr>sleepers := sleepers s @ [clock s + max 0 timeout]\<rparr>"

subsection \<open>BuildImage\<close>

record build_request =
  prepareB :: "nat \<times> string"
  formFile :: "string + (string + bytes)"
  mkdirAll :: "string option"
  osCreate :: "string option"
  ioCopy :: "(string \<times> nat) option"
  clusterB :: cluster

text \<open>
  \<open>formFile\<close> is the result of \<^verbatim>\<open>ctx.FormFile("file")\<close>: an error, or a file header whose
  \<^verbatim>\<open>Open\<close> gives an error or the uploaded bytes. \<open>ioCopy\<close> is the result of \<^verbatim>\<open>io.Copy\<close>
  into an open destination: \<open>None\<close> when every byte was written, \<open>Some (err, n)\<close> when it
  failed after \<open>n\<close> bytes. Copying into the nil \<^verbatim>\<open>*os.File\<close> that a failed \<^verbatim>\<open>os.Create\<close>
  returns fails with \<^verbatim>\<open>os.ErrInvalid\<close> before anything is read.
\<close>

definition copyResult :: "build_request \<Rightarrow> bool \<Rightarrow> (string \<times> nat) option" where
  "copyResult r dstOpen = (if dstOpen then ioCopy r else Some (ErrInvalid, 0))"

text \<open>Lines 72 to 108: the handler after the lease is taken.\<close>

definition stageAndTrigger :: "build_request \<Rightarrow> ctx \<times> sys \<Rightarrow> ctx \<times> sys" where
  "stageAndTrigger r cs =
     (let c = call FormFile (fst cs); s = snd cs in
      case formFile r of
        Inl err \<Rightarrow> (JSONError c StatusBadRequest ''No file provided'', s)
      | Inr file \<Rightarrow>
     (let c = call FileOpen c in
      case file of
        Inl err \<Rightarrow>
          (JSONError c StatusInternalServerError (''Could not process uploaded file: '' @ err), s)
      | Inr src \<Rightarrow>
     (let c = call MkdirAll c in
      case mkdirAll r of
        Some err \<Rightarrow>
          (JSONError c StatusInternalServerError
             (''Could not prepare upload directory: '' @ err), s)
      | None \<Rightarrow>
     (let s = s\<lparr>dirExists := True\<rparr>;
          c = call OsCreate c;
          c = (case osCreate r of
                 Some err \<Rightarrow>
                   JSONError c StatusInternalServerError
                     (''error: '' @ err @ '', Could not save file on disk: '' @ filePath @ ''. '')
               | None \<Rightarrow> c);
          s = (case osCreate r of Some err \<Rightarrow> s | None \<Rightarrow> s\<lparr>staged := Some []\<rparr>);
          c = call IoCopy c
      in
      case copyResult r (osCreate r = None) of
        Some (err, n) \<Rightarrow>
          (JSONError c StatusInternalServerError
             (''error copy to the local file: '' @ err @ ''. ''),
           (case osCreate r of Some e \<Rightarrow> s | None \<Rightarrow> s\<lparr>staged := Some (take n src)\<rparr>))
      | None \<Rightarrow>
     (let s = s\<lparr>staged := Some src\<rparr>;
          t = BuildAndPushImage (clusterB r);
          c = c\<lparr>calls := calls c @ fst t\<rparr>
      in
      case snd t of
        Some err \<Rightarrow> (JSONError c StatusInternalServerError err, s)
      | None \<Rightarrow>
          (JSONSuccess c ''VDDK build started; check your registry in OpenShift'' None, s))))))"

text \<open>
  The handler. The deferred \<^verbatim>\<open>resetBusyAfter(waitForDownload)\<close> is registered once the
  lease is taken and runs when the handler returns, whichever return that is.
\<close>

definition BuildImage :: "build_request \<Rightarrow> sys \<Rightarrow> (ctx \<times> sys) go" where
  "BuildImage r s =
     (if fst (prepareB r) \<noteq> StatusOK
      then Returns (send (ForkliftError (snd (prepareB r))) (send (Status (fst (prepareB r))) ctx0), s)
      else
        and_then (Lock s) (\<lambda>s.
          let c = call ReadIsBusy (call MutexLock ctx0) in
          if isBusy s
          then and_then (Unlock s) (\<lambda>s.
                 Returns (JSONError (call MutexUnlock c) StatusServiceUnavailable
                   ''Server is busy processing another build. Please try again later.'', s))
          else and_then (Unlock (s\<lparr>isBusy := True\<rparr>)) (\<lambda>s.
                 let cs = stageAndTrigger r (call MutexUnlock (call (WriteIsBusy True) c), s)
                 in Returns (call (GoSleepThenReset waitForDownload) (fst cs),
                             resetBusyAfter waitForDownload (snd cs)))))"

subsection \<open>ImageUrl and DownloadVddkTar\<close>

record url_request =
  prepareU :: "nat \<times> string"
  clusterU :: cluster

definition ImageUrl :: "url_request \<Rightarrow> sys \<Rightarrow> ctx \<times> sys" where
  "ImageUrl q s =
     (if fst (prepareU q) \<noteq> StatusOK
      then (send (ForkliftError (snd (prepareU q))) (send (Status (fst (prepareU q))) ctx0), s)
      else
     (let k = clusterU q; c = call ReadNamespaceFile ctx0 in
      case currentNamespace k of
        Inl err \<Rightarrow>
          (JSONError c StatusInternalServerError (''Could not determine namespace: '' @ err), s)
      | Inr namespace \<Rightarrow>
     (let c = call InClusterConfig c in
      case inClusterConfig k of
        Some err \<Rightarrow>
          (JSONError c StatusInternalServerError (''Could not load cluster config: '' @ err), s)
      | None \<Rightarrow>
     (let c = call NewImageClient c in
      case newImageClient k of
        Some err \<Rightarrow>
          (JSONError c StatusInternalServerError (''Could not create image client: '' @ err), s)
      | None \<Rightarrow>
     (let c = call GetImageStreamTag c;
          res = imageReference k namespace registryImageTag
      in
      case snd res of
        Some err \<Rightarrow>
          (JSONError c StatusInternalServerError
             (''Error checking image reference: '' @ err), s)
      | None \<Rightarrow>
          if \<not> snd (fst res)
          then (JSONError c StatusNotFound (''Image: '' @ registryImageTag @ '' not found''), s)
          else (JSONSuccess c (''Image: '' @ registryImageTag @ '' exists'')
                  (Some [(''imageReference'', fst (fst res))]), s))))))"

text \<open>
  \<open>statFault\<close> is a failure of \<^verbatim>\<open>os.Stat\<close> other than "does not exist". \<^verbatim>\<open>ctx.File\<close>
  serves the content of the file (a plain GET, no range or conditional header).
\<close>

record download_request =
  prepareD :: "nat \<times> string"
  statFault :: "string option"

datatype stat = StatError string | StatNotExist | StatFound bytes

definition osStat :: "download_request \<Rightarrow> sys \<Rightarrow> stat" where
  "osStat q s =
     (case statFault q of
        Some err \<Rightarrow> StatError err
      | None \<Rightarrow> (case staged s of None \<Rightarrow> StatNotExist | Some content \<Rightarrow> StatFound content))"

definition DownloadVddkTar :: "download_request \<Rightarrow> sys \<Rightarrow> ctx \<times> sys" where
  "DownloadVddkTar q s =
     (if fst (prepareD q) \<noteq> StatusOK
      then (send (ForkliftError (snd (prepareD q))) (send (Status (fst (prepareD q))) ctx0), s)
      else
     (let c = call OsStat ctx0 in
      case osStat q s of
        StatNotExist \<Rightarrow> (JSONError c StatusNotFound ''VDDK tar not found'', s)
      | StatError err \<Rightarrow>
          (JSONError c StatusInternalServerError (''Failed to stat file: '' @ err), s)
      | StatFound content \<Rightarrow>
     (let c = send (Header ''Content-Disposition''
                     (''attachment; filename='' @ [CHR 0x22] @ vddkTarFileName @ [CHR 0x22])) c;
          c = send (Header ''Content-Type'' ''application/octet-stream'') c;
          c = call ServeFile c
      in (send (File content) c, s))))"

subsection \<open>Executions of the process\<close>

text \<open>
  An execution is a sequence of events: the three requests, the passing of time, and the
  end of the \<^verbatim>\<open>time.Sleep\<close> of the \<open>i\<close>-th goroutine started by \<^verbatim>\<open>resetBusyAfter\<close>,
  which then runs \<^verbatim>\<open>resetBusy\<close> (line 268, the only call of it). A sleeper cannot wake
  before its time (\<open>Blocks\<close>). Each event runs to its end before the next one; how the
  steps of concurrent admissions interleave is the subject of the next subsection.
\<close>

datatype event =
    ReqBuildImage build_request
  | ReqImageUrl url_request
  | ReqDownload download_request
  | Elapse nat
  | WakeUp nat

definition drop_nth :: "nat \<Rightarrow> 'a list \<Rightarrow> 'a list" where
  "drop_nth i xs = take i xs @ drop (Suc i) xs"

definition wakeUp :: "nat \<Rightarrow> sys \<Rightarrow> sys go" where
  "wakeUp i s =
     (if i < length (sleepers s) \<and> sleepers s ! i \<le> clock s
      then resetBusy (s\<lparr>sleepers := drop_nth i (sleepers s)\<rparr>)
      else Blocks)"

fun step :: "event \<Rightarrow> sys \<Rightarrow> (ctx \<times> sys) go" where
  "step (ReqBuildImage r) s = BuildImage r s"
| "step (ReqImageUrl q) s = Returns (ImageUrl q s)"
| "step (ReqDownload q) s = Returns (DownloadVddkTar q s)"
| "step (Elapse d) s = Returns (ctx0, s\<lparr>clock := clock s + int d\<rparr>)"
| "step (WakeUp i) s = and_then (wakeUp i s) (\<lambda>s. Returns (ctx0, s))"

fun run :: "event list \<Rightarrow> sys \<Rightarrow> (ctx list \<times> sys) go" where
  "run [] s = Returns ([], s)"
| "run (e # es) s =
     and_then (step e s) (\<lambda>cs.
       and_then (run es (snd cs)) (\<lambda>r. Returns (fst cs # fst r, snd r)))"

text \<open>The process at start: lease idle, mutex free, nothing scheduled, nothing staged.\<close>

definition boot :: sys where
  "boot = \<lparr>isBusy = False, buildLock = False, sleepers = [], clock = 0,
           dirExists = False, staged = None\<rparr>"

subsection \<open>Concurrent admissions, step by step\<close>

text \<open>
  Each goroutine is at a line of the source. An admission (lines 62 to 69 of
  \<^verbatim>\<open>BuildImage\<close>) is at \<open>L62\<close> before \<^verbatim>\<open>buildLock.Lock()\<close>, at \<open>L63\<close> before the test of
  \<^verbatim>\<open>isBusy\<close>, at \<open>L64\<close> before the \<^verbatim>\<open>Unlock\<close> of the busy branch, at \<open>L68\<close> before
  \<^verbatim>\<open>isBusy = true\<close>, at \<open>L69\<close> before the \<^verbatim>\<open>Unlock\<close> that follows; it ends \<open>Rejected\<close>
  (the 503 response) or \<open>Admitted\<close> (past line 69). A release (\<^verbatim>\<open>resetBusy\<close>, lines 259
  to 261) is at \<open>R259\<close>, \<open>R260\<close>, \<open>R261\<close> before its three statements and ends \<open>Released\<close>.
\<close>

datatype pc = L62 | L63 | L64 | L68 | L69 | Rejected | Admitted | R259 | R260 | R261 | Released

datatype label = Acq nat | Rel nat

type_synonym conc = "sys \<times> pc list \<times> label list"

text \<open>
  One step of goroutine \<open>i\<close>. A goroutine that waits for the mutex, or has ended, or does
  not exist, makes no step. The writes of \<^verbatim>\<open>isBusy\<close> are recorded, in order.
\<close>

definition advance :: "nat \<Rightarrow> conc \<Rightarrow> conc" where
  "advance i cf =
     (let s = fst cf; pcs = fst (snd cf); tr = snd (snd cf) in
      if length pcs \<le> i then cf
      else case pcs ! i of
        L62 \<Rightarrow> (case Lock s of Returns s' \<Rightarrow> (s', pcs[i := L63], tr) | Blocks \<Rightarrow> cf | Fatal \<Rightarrow> cf)
      | L63 \<Rightarrow> (s, pcs[i := (if isBusy s then L64 else L68)], tr)
      | L64 \<Rightarrow> (case Unlock s of Returns s' \<Rightarrow> (s', pcs[i := Rejected], tr) | Blocks \<Rightarrow> cf | Fatal \<Rightarrow> cf)
      | L68 \<Rightarrow> (s\<lparr>isBusy := True\<rparr>, pcs[i := L69], tr @ [Acq i])
      | L69 \<Rightarrow> (case Unlock s of Returns s' \<Rightarrow> (s', pcs[i := Admitted], tr) | Blocks \<Rightarrow> cf | Fatal \<Rightarrow> cf)
      | Rejected \<Rightarrow> cf
      | Admitted \<Rightarrow> cf
      | R259 \<Rightarrow> (case Lock s of Returns s' \<Rightarrow> (s', pcs[i := R260], tr) | Blocks \<Rightarrow> cf | Fatal \<Rightarrow> cf)
      | R260 \<Rightarrow> (s\<lparr>isBusy := False\<rparr>, pcs[i := R261], tr @ [Rel i])
      | R261 \<Rightarrow> (case Unlock s of Returns s' \<Rightarrow> (s', pcs[i := Released], tr) | Blocks \<Rightarrow> cf | Fatal \<Rightarrow> cf)
      | Released \<Rightarrow> cf)"

fun interleave :: "nat list \<Rightarrow> conc \<Rightarrow> conc" where
  "interleave [] cf = cf"
| "interleave (i # sch) cf = interleave sch (advance i cf)"

text \<open>
  Read along the recorded writes, with \<open>b\<close> the flag before them: \<open>held\<close> is the flag after
  them, and \<open>separated\<close> says that every acquisition found the flag clear, that is, no two
  acquisitions without a release between them.
\<close>

fun held :: "bool \<Rightarrow> label list \<Rightarrow> bool" where
  "held b [] = b"
| "held b (Acq i # tr) = held True tr"
| "held b (Rel i # tr) = held False tr"

fun separated :: "bool \<Rightarrow> label list \<Rightarrow> bool" where
  "separated b [] = True"
| "separated b (Acq i # tr) = (\<not> b \<and> separated True tr)"
| "separated b (Rel i # tr) = separated False tr"

definition inCS :: "pc \<Rightarrow> bool" where
  "inCS p = (p = L63 \<or> p = L64 \<or> p = L68 \<or> p = L69 \<or> p = R260 \<or> p = R261)"

text \<open>\<^verbatim>\<open>resetBusy\<close> called \<open>n\<close> times in a row.\<close>

primrec resetBusyTimes :: "nat \<Rightarrow> sys \<Rightarrow> sys go" where
  "resetBusyTimes 0 s = Returns s"
| "resetBusyTimes (Suc n) s = and_then (resetBusy s) (resetBusyTimes n)"

subsection \<open>Sample inputs\<close>

definition okCluster :: cluster where
  "okCluster =
     \<lparr>readNamespaceFile = Inr ''openshift-mtv'', trimSpace = (\<lambda>x. x),
      inClusterConfig = None, newBuildClient = None, instantiate = (\<lambda>ns n. None),
      newImageClient = None, getImageStreamTag = (\<lambda>ns t. TagNotFound)\<rparr>"

definition upload :: "bytes \<Rightarrow> build_request" where
  "upload src =
     \<lparr>prepareB = (StatusOK, []), formFile = Inr (Inr src), mkdirAll = None,
      osCreate = None, ioCopy = None, clusterB = okCluster\<rparr>"

definition noFile :: build_request where
  "noFile = (upload [])\<lparr>formFile := Inl ''http: no such file''\<rparr>"

definition createFails :: build_request where
  "createFails =
     (upload ''tar'')\<lparr>osCreate := Some ''open /tmp/uploads/vddk.tar.gz: permission denied''\<rparr>"

definition copyFails :: build_request where
  "copyFails = (upload ''tar'')\<lparr>ioCopy := Some (''no space left on device'', 2)\<rparr>"

definition triggerFails :: build_request where
  "triggerFails =
     (upload ''tar'')\<lparr>clusterB := okCluster\<lparr>instantiate := (\<lambda>ns n. Some ''forbidden'')\<rparr>\<rparr>"

definition download :: download_request where
  "download = \<lparr>prepareD = (StatusOK, []), statFault = None\<rparr>"

text \<open>The delays of the release goroutines a handler started, read off its calls.\<close>

fun scheduled :: "effect list \<Rightarrow> int list" where
  "scheduled [] = []"
| "scheduled (GoSleepThenReset d # es) = d # scheduled es"
| "scheduled (e # es) = scheduled es"

subsection \<open>Sequences of stagings\<close>

text \<open>
  \<open>stages r src\<close>: the request \<open>r\<close> passes \<^verbatim>\<open>Prepare\<close> and its upload \<open>src\<close> gets through
  \<^verbatim>\<open>Open\<close>, \<^verbatim>\<open>MkdirAll\<close>, \<^verbatim>\<open>Create\<close> and \<^verbatim>\<open>Copy\<close>. \<open>cycle r\<close> is the request followed by
  the wait and the release it scheduled. \<open>idle\<close>: lease free, nothing scheduled.
\<close>

definition stages :: "build_request \<Rightarrow> bytes \<Rightarrow> bool" where
  "stages r src =
     (fst (prepareB r) = StatusOK \<and> formFile r = Inr (Inr src) \<and> mkdirAll r = None
      \<and> osCreate r = None \<and> ioCopy r = None)"

definition payload :: "build_request \<Rightarrow> bytes" where
  "payload r = (case formFile r of Inr (Inr src) \<Rightarrow> src | _ \<Rightarrow> [])"

definition cycle :: "build_request \<Rightarrow> event list" where
  "cycle r = [ReqBuildImage r, Elapse (nat waitForDownload), WakeUp 0]"

definition idle :: "sys \<Rightarrow> bool" where
  "idle s = (\<not> isBusy s \<and> \<not> buildLock s \<and> sleepers s = [])"

subsection \<open>Cycles of the lease\<close>

text \<open>
  \<open>accepted\<close> is what a request that stages and triggers without failure gets.
  \<open>paired\<close> says that the mutex is free and the flag is set exactly when one release is
  pending. \<open>cycleThenRequest\<close>: a request is admitted, its release runs when it is due,
  a second request follows. \<open>releaseDue\<close> is the state of the first cycle at the time
  its release is due.
\<close>

definition accepted :: ctx where
  "accepted =
     \<lparr>written = [JSON 200 (Envelope ''success''
                   ''VDDK build started; check your registry in OpenShift'' None)],
      calls = [MutexLock, ReadIsBusy, WriteIsBusy True, MutexUnlock, FormFile, FileOpen, MkdirAll,
               OsCreate, IoCopy, ReadNamespaceFile, InClusterConfig, NewBuildClient, Instantiate,
               GoSleepThenReset 15000000000]\<rparr>"

definition paired :: "sys \<Rightarrow> bool" where
  "paired s = (\<not> buildLock s \<and> (if isBusy s then length (sleepers s) = 1 else sleepers s = []))"

definition cycleThenRequest :: "event list" where
  "cycleThenRequest =
     [ReqBuildImage (upload ''one''), Elapse 15000000000, WakeUp 0,
      ReqBuildImage (upload ''two'')]"

definition releaseDue :: sys where
  "releaseDue = boot\<lparr>isBusy := True, sleepers := [15000000000], clock := 15000000000,
                      dirExists := True, staged := Some ''one''\<rparr>"

subsection \<open>Invariants of the interleaving\<close>

text \<open>
  \<open>won\<close>: the goroutine has seen the flag clear (it is about to set it, has set it, or is
  past line 69). \<open>excl\<close>: the mutex is held exactly when some goroutine is between its
  \<^verbatim>\<open>Lock\<close> and its \<^verbatim>\<open>Unlock\<close>, and at most one is. \<open>attempt\<close>: a line of an admission.
\<close>

definition won :: "pc \<Rightarrow> bool" where
  "won p = (p = L68 \<or> p = L69 \<or> p = Admitted)"


definition excl :: "sys \<Rightarrow> pc list \<Rightarrow> bool" where
  "excl s pcs =
     ((buildLock s = (\<exists>i<length pcs. inCS (pcs ! i)))
      \<and> (\<forall>i<length pcs. \<forall>j<length pcs. inCS (pcs ! i) \<and> inCS (pcs ! j) \<longrightarrow> i = j))"

definition Inv :: "bool \<Rightarrow> conc \<Rightarrow> bool" where
  "Inv b cf =
     (case cf of (s, pcs, tr) \<Rightarrow>
      excl s pcs
      \<and> isBusy s = held b tr
      \<and> separated b tr
      \<and> (\<forall>i<length pcs. pcs ! i = L68 \<longrightarrow> \<not> isBusy s)
      \<and> (\<forall>i<length pcs. (pcs ! i = L69 \<or> pcs ! i = Admitted) = (Acq i \<in> set tr))
      \<and> (\<forall>i. Acq i \<in> set tr \<longrightarrow> i < length pcs)
      \<and> (\<forall>i<length pcs. pcs ! i = L64 \<or> pcs ! i = Rejected \<longrightarrow> b \<or> tr \<noteq> [])
      \<and> (\<forall>j. Rel j \<in> set tr \<longrightarrow> j < length pcs \<and> (pcs ! j = R261 \<or> pcs ! j = Released)))"

definition attempt :: "pc \<Rightarrow> bool" where
  "attempt p = (p = L62 \<or> p = L63 \<or> p = L64 \<or> p = L68 \<or> p = L69 \<or> p = Rejected \<or> p = Admitted)"

text \<open>
  \<open>ended\<close>: the goroutine has returned. \<open>turns js\<close> is the schedule that gives each
  goroutine of \<open>js\<close>, in order, four steps in a row (an admission has four statements, a
  release three). \<open>calm\<close>: the mutex is free and no goroutine is between \<^verbatim>\<open>Lock\<close> and
  \<^verbatim>\<open>Unlock\<close>.
\<close>

definition ended :: "pc \<Rightarrow> bool" where
  "ended p = (p = Rejected \<or> p = Admitted \<or> p = Released)"

definition turns :: "nat list \<Rightarrow> nat list" where
  "turns js = concat (map (\<lambda>i. [i, i, i, i]) js)"

definition calm :: "sys \<Rightarrow> pc list \<Rightarrow> bool" where
  "calm s pcs = (\<not> buildLock s \<and> list_all (\<lambda>p. \<not> inCS p) pcs)"

definition sampleSchedule :: "nat list" where
  "sampleSchedule = [1, 0, 1, 2, 1, 1, 0, 0, 2, 0, 2, 2, 0, 1, 2]"

section \<open>Properties\<close>

subsection \<open>The lease alone\<close>

lemma resetBusy_free: "\<not> buildLock s \<Longrightarrow> resetBusy s = Returns (s\<lparr>isBusy := False\<rparr>)"
  by (simp add: resetBusy_def Lock_def Unlock_def)

lemma resetBusyTimes_free:
  "\<not> buildLock s \<Longrightarrow> resetBusyTimes n s = Returns (if n = 0 then s else s\<lparr>isBusy := False\<rparr>)"
proof (induction n arbitrary: s)
  case 0
  then show ?case by simp
next
  case (Suc n)
  then show ?case by (simp add: resetBusy_free)
qed

text \<open>
  Claim C8. \<^verbatim>\<open>resetBusy\<close> is unconditional and idempotent: called once or more, with the
  mutex free, it returns (it neither waits nor dies) and leaves the flag clear whatever
  the flag was; a second call changes nothing; called any number of times on an idle
  lease it returns the idle lease.
\<close>

theorem resetBusy_idempotent:
  assumes "\<not> buildLock s"
  shows "resetBusyTimes (Suc n) s = Returns (s\<lparr>isBusy := False\<rparr>)
       \<and> and_then (resetBusy s) resetBusy = resetBusy s
       \<and> resetBusyTimes n (s\<lparr>isBusy := False\<rparr>) = Returns (s\<lparr>isBusy := False\<rparr>)"
  using assms resetBusyTimes_free [of s "Suc n"] resetBusyTimes_free [of "s\<lparr>isBusy := False\<rparr>" n]
  by (simp add: resetBusy_free)

theorem resetBusy_idempotent_witness:
  "\<not> buildLock boot
   \<and> resetBusyTimes (Suc 2) boot = Returns boot
   \<and> resetBusyTimes (Suc 2) (boot\<lparr>isBusy := True\<rparr>) = Returns boot"
  using resetBusy_idempotent [of boot 2] resetBusy_idempotent [of "boot\<lparr>isBusy := True\<rparr>" 2]
  by (simp add: boot_def)

subsection \<open>One BuildImage request\<close>

text \<open>
  Claim C7. A request that passes \<^verbatim>\<open>Prepare\<close> and finds the lease held gets the one 503
  envelope and nothing else happens: the only calls are on the mutex and the flag, no file
  is opened, no directory or file is created, nothing is copied, the trigger is not
  called, no release is scheduled, and the process state is as it was.
\<close>

theorem rejected_no_side_effects:
  assumes "fst (prepareB r) = StatusOK" and "\<not> buildLock s" and "isBusy s"
  shows "BuildImage r s =
           Returns (\<lparr>written = [JSON StatusServiceUnavailable
                       (Envelope ''error''
                          ''Server is busy processing another build. Please try again later.'' None)],
                     calls = [MutexLock, ReadIsBusy, MutexUnlock]\<rparr>, s)"
  using assms
  by (simp add: BuildImage_def Lock_def Unlock_def JSONError_def send_def call_def ctx0_def)

theorem rejected_no_side_effects_witness:
  "fst (prepareB (upload ''tar'')) = StatusOK \<and> \<not> buildLock (boot\<lparr>isBusy := True\<rparr>)
   \<and> isBusy (boot\<lparr>isBusy := True\<rparr>)
   \<and> BuildImage (upload ''tar'') (boot\<lparr>isBusy := True\<rparr>) =
       Returns (\<lparr>written = [JSON 503
                   (Envelope ''error''
                      ''Server is busy processing another build. Please try again later.'' None)],
                 calls = [MutexLock, ReadIsBusy, MutexUnlock]\<rparr>, boot\<lparr>isBusy := True\<rparr>)"
  using rejected_no_side_effects [of "upload ''tar''" "boot\<lparr>isBusy := True\<rparr>"]
  by (simp add: upload_def boot_def StatusServiceUnavailable_def)

lemmas ctx_defs = JSONError_def JSONSuccess_def send_def call_def ctx0_def

lemma admitted:
  assumes "fst (prepareB r) = StatusOK" and "\<not> buildLock s" and "\<not> isBusy s"
  shows "BuildImage r s =
     Returns (call (GoSleepThenReset waitForDownload)
                (fst (stageAndTrigger r
                   (\<lparr>written = [], calls = [MutexLock, ReadIsBusy, WriteIsBusy True, MutexUnlock]\<rparr>,
                    s\<lparr>isBusy := True\<rparr>))),
              resetBusyAfter waitForDownload
                (snd (stageAndTrigger r
                   (\<lparr>written = [], calls = [MutexLock, ReadIsBusy, WriteIsBusy True, MutexUnlock]\<rparr>,
                    s\<lparr>isBusy := True\<rparr>))))"
proof -
  have eq: "s\<lparr>isBusy := True, buildLock := False\<rparr> = s\<lparr>isBusy := True\<rparr>"
    using assms(2) by simp
  have "BuildImage r s =
     Returns (call (GoSleepThenReset waitForDownload)
                (fst (stageAndTrigger r
                   (\<lparr>written = [], calls = [MutexLock, ReadIsBusy, WriteIsBusy True, MutexUnlock]\<rparr>,
                    s\<lparr>isBusy := True, buildLock := False\<rparr>))),
              resetBusyAfter waitForDownload
                (snd (stageAndTrigger r
                   (\<lparr>written = [], calls = [MutexLock, ReadIsBusy, WriteIsBusy True, MutexUnlock]\<rparr>,
                    s\<lparr>isBusy := True, buildLock := False\<rparr>))))"
    using assms by (simp add: BuildImage_def Lock_def Unlock_def ctx_defs Let_def)
  then show ?thesis
    by (simp only: eq)
qed

text \<open>
  Claim C2 as stated fails: at start, a request without a file leaves the flag set and a
  release scheduled.
\<close>

theorem no_file_lease_unchanged_counterexample:
  "BuildImage noFile boot =
     Returns (\<lparr>written = [JSON 400 (Envelope ''error'' ''No file provided'' None)],
               calls = [MutexLock, ReadIsBusy, WriteIsBusy True, MutexUnlock, FormFile,
                        GoSleepThenReset 15000000000]\<rparr>,
              boot\<lparr>isBusy := True, sleepers := [15000000000]\<rparr>)
   \<and> isBusy (boot\<lparr>isBusy := True, sleepers := [15000000000]\<rparr>) \<noteq> isBusy boot
   \<and> sleepers (boot\<lparr>isBusy := True, sleepers := [15000000000]\<rparr>) \<noteq> sleepers boot"
  by (simp add: noFile_def upload_def boot_def BuildImage_def stageAndTrigger_def Lock_def Unlock_def
      resetBusyAfter_def ctx_defs waitForDownload_def Second_def StatusOK_def StatusBadRequest_def)

text \<open>
  Claim C2, as the code has it. The handler takes the lease (lines 62 to 70) before it
  looks at the form (line 72). A request that passes \<^verbatim>\<open>Prepare\<close>, finds the lease idle
  and has no file in its form gets the one 400 envelope, touches neither the file system
  nor the trigger, and does take the lease: the flag is set and one release is scheduled
  for \<open>waitForDownload\<close> later.
\<close>

theorem no_file_takes_lease:
  assumes "fst (prepareB r) = StatusOK" and "\<not> buildLock s" and "\<not> isBusy s"
      and "formFile r = Inl err"
  shows "BuildImage r s =
           Returns (\<lparr>written = [JSON StatusBadRequest (Envelope ''error'' ''No file provided'' None)],
                     calls = [MutexLock, ReadIsBusy, WriteIsBusy True, MutexUnlock, FormFile,
                              GoSleepThenReset waitForDownload]\<rparr>,
                    s\<lparr>isBusy := True, sleepers := sleepers s @ [clock s + waitForDownload]\<rparr>)"
  using assms
  by (simp add: admitted stageAndTrigger_def resetBusyAfter_def ctx_defs waitForDownload_def Second_def)

theorem no_file_takes_lease_witness:
  "fst (prepareB noFile) = StatusOK \<and> \<not> buildLock boot \<and> \<not> isBusy boot
   \<and> formFile noFile = Inl ''http: no such file''
   \<and> BuildImage noFile boot =
       Returns (\<lparr>written = [JSON 400 (Envelope ''error'' ''No file provided'' None)],
                 calls = [MutexLock, ReadIsBusy, WriteIsBusy True, MutexUnlock, FormFile,
                          GoSleepThenReset 15000000000]\<rparr>,
                boot\<lparr>isBusy := True, sleepers := [15000000000]\<rparr>)"
  using no_file_takes_lease [of noFile boot "''http: no such file''"]
  by (simp add: noFile_def upload_def boot_def StatusBadRequest_def waitForDownload_def Second_def)

lemma stageAndTrigger_frame:
  "isBusy (snd (stageAndTrigger r (c, s))) = isBusy s
   \<and> buildLock (snd (stageAndTrigger r (c, s))) = buildLock s
   \<and> sleepers (snd (stageAndTrigger r (c, s))) = sleepers s
   \<and> clock (snd (stageAndTrigger r (c, s))) = clock s"
  by (simp add: stageAndTrigger_def Let_def split: sum.splits option.splits prod.splits)

lemma stageAndTrigger_outcome:
  assumes "formFile r = Inr (Inr src)" and "mkdirAll r = None" and "osCreate r = None"
      and "ioCopy r = None"
  shows "written (fst (stageAndTrigger r (c, s))) = written c @
          [case snd (BuildAndPushImage (clusterB r)) of
             None \<Rightarrow> JSON StatusOK
                       (Envelope ''success'' ''VDDK build started; check your registry in OpenShift'' None)
           | Some err \<Rightarrow> JSON StatusInternalServerError (Envelope ''error'' err None)]"
  using assms
  by (simp add: stageAndTrigger_def copyResult_def Let_def ctx_defs split: option.splits)


lemma scheduled_append: "scheduled (xs @ ys) = scheduled xs @ scheduled ys"
  by (induction xs rule: scheduled.induct) simp_all

lemma scheduled_trigger: "scheduled (fst (BuildAndPushImage k)) = []"
  by (simp add: BuildAndPushImage_def split: sum.splits option.splits)

lemma stageAndTrigger_scheduled:
  "scheduled (calls (fst (stageAndTrigger r (c, s)))) = scheduled (calls c)"
  by (simp add: stageAndTrigger_def Let_def ctx_defs scheduled_append scheduled_trigger
      split: sum.splits option.splits prod.splits)

lemma drop_nth_last: "drop_nth (length xs) (xs @ [x]) = xs"
  by (simp add: drop_nth_def)

text \<open>
  Claim C4. A request that takes the lease starts exactly one release goroutine, with the
  delay \<open>waitForDownload\<close>, whatever the form, the file system and the trigger answer:
  the handler returns with the flag set, the mutex free and one more sleeper, due
  \<open>waitForDownload\<close> after the handler ran. That sleeper cannot run before it is due and
  can run when it is, clearing the flag. When staging succeeded the one envelope written
  is the outcome of \<^verbatim>\<open>BuildAndPushImage\<close>, which ends with the \<^verbatim>\<open>Instantiate\<close> call: the
  handler has nothing of the build itself to wait for.
\<close>

theorem release_scheduled_once:
  assumes "fst (prepareB r) = StatusOK" and "\<not> buildLock s" and "\<not> isBusy s"
  shows "\<exists>c s'. BuildImage r s = Returns (c, s')
           \<and> scheduled (calls c) = [waitForDownload]
           \<and> sleepers s' = sleepers s @ [clock s + waitForDownload]
           \<and> isBusy s' \<and> \<not> buildLock s' \<and> clock s' = clock s
           \<and> (\<forall>d. int d < waitForDownload \<longrightarrow>
                  wakeUp (length (sleepers s)) (s'\<lparr>clock := clock s + int d\<rparr>) = Blocks)
           \<and> wakeUp (length (sleepers s)) (s'\<lparr>clock := clock s + waitForDownload\<rparr>) =
                 Returns (s'\<lparr>clock := clock s + waitForDownload, sleepers := sleepers s,
                             isBusy := False\<rparr>)
           \<and> (formFile r = Inr (Inr src) \<and> mkdirAll r = None \<and> osCreate r = None
                \<and> ioCopy r = None \<longrightarrow>
                written c =
                  [case snd (BuildAndPushImage (clusterB r)) of
                     None \<Rightarrow> JSON StatusOK
                       (Envelope ''success'' ''VDDK build started; check your registry in OpenShift'' None)
                   | Some err \<Rightarrow> JSON StatusInternalServerError (Envelope ''error'' err None)])"
proof -
  let ?start = "\<lparr>written = [], calls = [MutexLock, ReadIsBusy, WriteIsBusy True, MutexUnlock]\<rparr>"
  let ?res = "stageAndTrigger r (?start, s\<lparr>isBusy := True\<rparr>)"
  let ?out = "call (GoSleepThenReset waitForDownload) (fst ?res)"
  let ?post = "resetBusyAfter waitForDownload (snd ?res)"
  have run: "BuildImage r s = Returns (?out, ?post)"
    using assms by (rule admitted)
  have fr: "isBusy (snd ?res)" "\<not> buildLock (snd ?res)" "sleepers (snd ?res) = sleepers s"
    "clock (snd ?res) = clock s"
    using assms(2) stageAndTrigger_frame [of r ?start "s\<lparr>isBusy := True\<rparr>"] by simp_all
  have pos: "max 0 waitForDownload = waitForDownload"
    by (simp add: waitForDownload_def Second_def)
  have a: "scheduled (calls ?out) = [waitForDownload]"
    by (simp add: call_def scheduled_append stageAndTrigger_scheduled)
  have b: "sleepers ?post = sleepers s @ [clock s + waitForDownload]"
    by (simp add: resetBusyAfter_def fr pos)
  have c: "isBusy ?post \<and> \<not> buildLock ?post \<and> clock ?post = clock s"
    by (simp add: resetBusyAfter_def fr)
  have d: "\<forall>d. int d < waitForDownload \<longrightarrow>
             wakeUp (length (sleepers s)) (?post\<lparr>clock := clock s + int d\<rparr>) = Blocks"
    by (simp add: wakeUp_def b)
  have e: "wakeUp (length (sleepers s)) (?post\<lparr>clock := clock s + waitForDownload\<rparr>) =
             Returns (?post\<lparr>clock := clock s + waitForDownload, sleepers := sleepers s,
                         isBusy := False\<rparr>)"
    using c by (simp add: wakeUp_def b drop_nth_last resetBusy_def Lock_def Unlock_def)
  have f: "formFile r = Inr (Inr src) \<and> mkdirAll r = None \<and> osCreate r = None
             \<and> ioCopy r = None \<longrightarrow>
           written ?out =
             [case snd (BuildAndPushImage (clusterB r)) of
                None \<Rightarrow> JSON StatusOK
                  (Envelope ''success'' ''VDDK build started; check your registry in OpenShift'' None)
              | Some err \<Rightarrow> JSON StatusInternalServerError (Envelope ''error'' err None)]"
    using stageAndTrigger_outcome [of r src ?start "s\<lparr>isBusy := True\<rparr>"]
    by (simp add: call_def)
  from run a b c d e f show ?thesis
    by blast
qed

theorem release_scheduled_once_witness:
  "fst (prepareB triggerFails) = StatusOK \<and> \<not> buildLock boot \<and> \<not> isBusy boot
   \<and> formFile triggerFails = Inr (Inr ''tar'') \<and> mkdirAll triggerFails = None
   \<and> osCreate triggerFails = None \<and> ioCopy triggerFails = None
   \<and> BuildImage triggerFails boot =
       Returns (\<lparr>written = [JSON 500 (Envelope ''error'' ''start build: forbidden'' None)],
                 calls = [MutexLock, ReadIsBusy, WriteIsBusy True, MutexUnlock, FormFile, FileOpen,
                          MkdirAll, OsCreate, IoCopy, ReadNamespaceFile, InClusterConfig,
                          NewBuildClient, Instantiate, GoSleepThenReset 15000000000]\<rparr>,
                boot\<lparr>isBusy := True, sleepers := [15000000000], dirExists := True,
                      staged := Some ''tar''\<rparr>)"
  using release_scheduled_once [of triggerFails boot "''tar''"]
  by (simp add: triggerFails_def upload_def okCluster_def boot_def BuildImage_def
      stageAndTrigger_def BuildAndPushImage_def currentNamespace_def copyResult_def Lock_def
      Unlock_def resetBusyAfter_def ctx_defs waitForDownload_def Second_def StatusOK_def
      StatusInternalServerError_def buildConfigName_def)

text \<open>
  Claim C6. When \<^verbatim>\<open>io.Copy\<close> fails, the last envelope written is the 500 with the copy
  error (the only one when \<^verbatim>\<open>os.Create\<close> had succeeded), and the handler's calls end
  with the copy and the deferred release: \<^verbatim>\<open>BuildAndPushImage\<close> is not called.
\<close>

theorem copy_failure_surfaced:
  assumes "fst (prepareB r) = StatusOK" and "\<not> buildLock s" and "\<not> isBusy s"
      and "formFile r = Inr (Inr src)" and "mkdirAll r = None"
      and "copyResult r (osCreate r = None) = Some (err, n)"
  shows "\<exists>c s'. BuildImage r s = Returns (c, s')
           \<and> last (written c) =
               JSON StatusInternalServerError
                 (Envelope ''error'' (''error copy to the local file: '' @ err @ ''. '') None)
           \<and> (osCreate r = None \<longrightarrow> length (written c) = 1)
           \<and> calls c = [MutexLock, ReadIsBusy, WriteIsBusy True, MutexUnlock, FormFile, FileOpen,
                        MkdirAll, OsCreate, IoCopy, GoSleepThenReset waitForDownload]"
  using assms
  by (simp add: admitted stageAndTrigger_def Let_def ctx_defs split: option.splits)

theorem copy_failure_surfaced_witness:
  "fst (prepareB copyFails) = StatusOK \<and> \<not> buildLock boot \<and> \<not> isBusy boot
   \<and> formFile copyFails = Inr (Inr ''tar'') \<and> mkdirAll copyFails = None
   \<and> copyResult copyFails (osCreate copyFails = None) = Some (''no space left on device'', 2)
   \<and> BuildImage copyFails boot =
       Returns (\<lparr>written = [JSON 500 (Envelope ''error''
                   ''error copy to the local file: no space left on device. '' None)],
                 calls = [MutexLock, ReadIsBusy, WriteIsBusy True, MutexUnlock, FormFile, FileOpen,
                          MkdirAll, OsCreate, IoCopy, GoSleepThenReset 15000000000]\<rparr>,
                boot\<lparr>isBusy := True, sleepers := [15000000000], dirExists := True,
                      staged := Some ''ta''\<rparr>)"
  using copy_failure_surfaced [of copyFails boot "''tar''" "''no space left on device''" 2]
  by (simp add: copyFails_def upload_def boot_def BuildImage_def
      stageAndTrigger_def copyResult_def Lock_def
      Unlock_def resetBusyAfter_def ctx_defs waitForDownload_def Second_def StatusOK_def
      StatusInternalServerError_def)

text \<open>
  How many envelopes a request that takes the lease gets: two when \<^verbatim>\<open>os.Create\<close> fails
  (its branch, lines 92 to 95, has no \<^verbatim>\<open>return\<close>, and the copy into the nil file fails
  next), one on every other path.
\<close>

lemma envelopes_per_request:
  assumes "fst (prepareB r) = StatusOK" and "\<not> buildLock s" and "\<not> isBusy s"
  shows "\<exists>c s'. BuildImage r s = Returns (c, s')
           \<and> length (written c) =
               (case (formFile r, mkdirAll r, osCreate r) of
                  (Inr (Inr src), None, Some err) \<Rightarrow> 2
                | _ \<Rightarrow> 1)"
  using assms
  by (simp add: admitted stageAndTrigger_def copyResult_def Let_def ctx_defs
      split: sum.splits option.splits prod.splits)

text \<open>
  Claim C3 asks for exactly one envelope per failed request. At a request whose
  \<^verbatim>\<open>os.Create\<close> fails the handler writes two: the one of the failed creation and the
  one of the failed copy.
\<close>

theorem create_failure_two_envelopes:
  "BuildImage createFails boot =
     Returns (\<lparr>written =
                 [JSON 500 (Envelope ''error''
                    ''error: open /tmp/uploads/vddk.tar.gz: permission denied, Could not save file on disk: /tmp/uploads/vddk.tar.gz. '' None),
                  JSON 500 (Envelope ''error'' ''error copy to the local file: invalid argument. '' None)],
               calls = [MutexLock, ReadIsBusy, WriteIsBusy True, MutexUnlock, FormFile, FileOpen,
                        MkdirAll, OsCreate, IoCopy, GoSleepThenReset 15000000000]\<rparr>,
              boot\<lparr>isBusy := True, sleepers := [15000000000], dirExists := True\<rparr>)"
  by (simp add: createFails_def upload_def boot_def BuildImage_def stageAndTrigger_def Lock_def Unlock_def
      resetBusyAfter_def ctx_defs waitForDownload_def Second_def StatusOK_def copyResult_def
      StatusInternalServerError_def filePath_def uploadDir_def vddkTarFileName_def ErrInvalid_def)

subsection \<open>The read-only endpoints\<close>

lemma ImageUrl_calls:
  "set (calls (fst (ImageUrl q s))) \<subseteq> {ReadNamespaceFile, InClusterConfig, NewImageClient, GetImageStreamTag}"
  by (auto simp add: ImageUrl_def Let_def ctx_defs split: sum.splits option.splits)

lemma DownloadVddkTar_calls:
  "set (calls (fst (DownloadVddkTar q s))) \<subseteq> {OsStat, ServeFile}"
  by (auto simp add: DownloadVddkTar_def Let_def ctx_defs split: stat.splits)

lemma ImageUrl_state: "snd (ImageUrl q s) = s"
  by (simp add: ImageUrl_def Let_def split: sum.splits option.splits)

lemma DownloadVddkTar_state: "snd (DownloadVddkTar q s) = s"
  by (simp add: DownloadVddkTar_def Let_def split: stat.splits)

lemma ImageUrl_blind: "fst (ImageUrl q s) = fst (ImageUrl q s')"
  by (simp add: ImageUrl_def Let_def split: sum.splits option.splits)

lemma DownloadVddkTar_blind:
  "fst (DownloadVddkTar q (s\<lparr>isBusy := b, buildLock := l, sleepers := ts\<rparr>)) = fst (DownloadVddkTar q s)"
  by (simp add: DownloadVddkTar_def osStat_def Let_def split: stat.splits option.splits)

text \<open>
  Claim C10. \<^verbatim>\<open>ImageUrl\<close> and \<^verbatim>\<open>DownloadVddkTar\<close> leave the process state as it was (flag,
  mutex, scheduled releases, upload directory, staged file); what they answer does not
  depend on the flag, the mutex or the scheduled releases (nor, for \<^verbatim>\<open>ImageUrl\<close>, on
  the staged file); and among their calls there is none on the mutex or the flag, no
  release is started and nothing is created or copied: \<^verbatim>\<open>DownloadVddkTar\<close> only stats and
  serves the file.
\<close>

theorem read_only_endpoints_frame:
  "snd (ImageUrl u s) = s
   \<and> snd (DownloadVddkTar q s) = s
   \<and> fst (ImageUrl u (s\<lparr>isBusy := b, buildLock := l, sleepers := ts, staged := f\<rparr>)) = fst (ImageUrl u s)
   \<and> fst (DownloadVddkTar q (s\<lparr>isBusy := b, buildLock := l, sleepers := ts\<rparr>)) = fst (DownloadVddkTar q s)
   \<and> set (calls (fst (ImageUrl u s))) \<inter>
       {MutexLock, ReadIsBusy, WriteIsBusy w, MutexUnlock, GoSleepThenReset d,
        MkdirAll, OsCreate, IoCopy, OsStat, ServeFile} = {}
   \<and> set (calls (fst (DownloadVddkTar q s))) \<inter>
       {MutexLock, ReadIsBusy, WriteIsBusy w, MutexUnlock, GoSleepThenReset d,
        MkdirAll, OsCreate, IoCopy} = {}"
proof -
  have a: "set (calls (fst (ImageUrl u s))) \<inter>
       {MutexLock, ReadIsBusy, WriteIsBusy w, MutexUnlock, GoSleepThenReset d,
        MkdirAll, OsCreate, IoCopy, OsStat, ServeFile} = {}"
    using ImageUrl_calls [of u s] by auto
  have b: "set (calls (fst (DownloadVddkTar q s))) \<inter>
       {MutexLock, ReadIsBusy, WriteIsBusy w, MutexUnlock, GoSleepThenReset d,
        MkdirAll, OsCreate, IoCopy} = {}"
    using DownloadVddkTar_calls [of q s] by auto
  show ?thesis
    using a b ImageUrl_blind [of u _ s]
    by (simp add: ImageUrl_state DownloadVddkTar_state DownloadVddkTar_blind)
qed

subsection \<open>The mutex between events\<close>

text \<open>Every event that returns leaves the mutex free when it found it free.\<close>

lemma step_mutex_free:
  assumes "\<not> buildLock s" and "step e s = Returns (c, s')"
  shows "\<not> buildLock s'"
proof (cases e)
  case (ReqBuildImage r)
  show ?thesis
  proof (cases "fst (prepareB r) = StatusOK \<and> \<not> isBusy s")
    case True
    with assms ReqBuildImage
      stageAndTrigger_frame [of r "\<lparr>written = [], calls = [MutexLock, ReadIsBusy, WriteIsBusy True, MutexUnlock]\<rparr>" "s\<lparr>isBusy := True\<rparr>"]
    show ?thesis
      by (auto simp add: admitted resetBusyAfter_def)
  next
    case False
    with assms ReqBuildImage show ?thesis
      by (auto simp add: BuildImage_def Lock_def Unlock_def split: if_splits)
  qed
next
  case (ReqImageUrl q)
  with assms show ?thesis by (auto simp add: ImageUrl_state dest: arg_cong [where f = snd])
next
  case (ReqDownload q)
  with assms show ?thesis by (auto simp add: DownloadVddkTar_state dest: arg_cong [where f = snd])
next
  case (Elapse d)
  with assms show ?thesis by auto
next
  case (WakeUp i)
  with assms show ?thesis
    by (auto simp add: wakeUp_def resetBusy_def Lock_def Unlock_def split: if_splits)
qed

lemma run_mutex_free:
  assumes "\<not> buildLock s" and "run es s = Returns (cs, s')"
  shows "\<not> buildLock s'"
  using assms
proof (induction es arbitrary: s cs)
  case Nil
  then show ?case by simp
next
  case (Cons e es)
  from Cons.prems(2) obtain c1 s1 where one: "step e s = Returns (c1, s1)"
    by (cases "step e s") auto
  with Cons.prems(1) have "\<not> buildLock s1"
    by (rule step_mutex_free)
  moreover from Cons.prems(2) one obtain c2 where "run es s1 = Returns (c2, s')"
    by (cases "run es s1") auto
  ultimately show ?case
    using Cons.IH by blast
qed

subsection \<open>Staging and retrieving\<close>

lemma run_append:
  "run (es @ fs) s =
     and_then (run es s) (\<lambda>a. and_then (run fs (snd a)) (\<lambda>b. Returns (fst a @ fst b, snd b)))"
proof (induction es arbitrary: s)
  case Nil
  show ?case by (cases "run fs s") simp_all
next
  case (Cons e es)
  show ?case
  proof (cases "step e s")
    case (Returns cs)
    show ?thesis
    proof (cases "run es (snd cs)")
      case (Returns a)
      with \<open>step e s = Returns cs\<close> Cons [of "snd cs"] show ?thesis
        by (cases "run fs (snd a)") simp_all
    qed (simp_all add: \<open>step e s = Returns cs\<close> Cons [of "snd cs"])
  qed simp_all
qed

lemma stageAndTrigger_staged:
  assumes "stages r src"
  shows "staged (snd (stageAndTrigger r (c, s))) = Some src"
  using assms
  by (simp add: stages_def stageAndTrigger_def copyResult_def Let_def split: option.splits)

lemma cycle_stages:
  assumes "idle s" and "stages r src"
  shows "\<exists>cs s'. run (cycle r) s = Returns (cs, s') \<and> idle s' \<and> staged s' = Some src"
proof -
  let ?start = "\<lparr>written = [], calls = [MutexLock, ReadIsBusy, WriteIsBusy True, MutexUnlock]\<rparr>"
  let ?res = "stageAndTrigger r (?start, s\<lparr>isBusy := True\<rparr>)"
  let ?s1 = "resetBusyAfter waitForDownload (snd ?res)"
  let ?s2 = "?s1\<lparr>clock := clock ?s1 + int (nat waitForDownload)\<rparr>"
  have adm: "fst (prepareB r) = StatusOK" "\<not> buildLock s" "\<not> isBusy s" "sleepers s = []"
    using assms by (simp_all add: idle_def stages_def)
  have b: "BuildImage r s = Returns (call (GoSleepThenReset waitForDownload) (fst ?res), ?s1)"
    using adm(1-3) by (rule admitted)
  have fr: "isBusy (snd ?res)" "\<not> buildLock (snd ?res)" "sleepers (snd ?res) = []"
    using adm stageAndTrigger_frame [of r ?start "s\<lparr>isBusy := True\<rparr>"] by simp_all
  have st: "staged (snd ?res) = Some src"
    using assms(2) by (rule stageAndTrigger_staged)
  have pos: "max 0 waitForDownload = waitForDownload" "int (nat waitForDownload) = waitForDownload"
    by (simp_all add: waitForDownload_def Second_def)
  have e: "step (Elapse (nat waitForDownload)) ?s1 = Returns (ctx0, ?s2)"
    by simp
  have w: "wakeUp 0 ?s2 = Returns (?s2\<lparr>sleepers := [], buildLock := True, isBusy := False, buildLock := False\<rparr>)"
    using fr by (simp add: wakeUp_def resetBusyAfter_def pos drop_nth_def resetBusy_def Lock_def Unlock_def)
  have "run (cycle r) s =
          Returns ([call (GoSleepThenReset waitForDownload) (fst ?res), ctx0, ctx0],
                   ?s2\<lparr>sleepers := [], buildLock := True, isBusy := False, buildLock := False\<rparr>)"
    by (simp only: cycle_def run.simps step.simps b e w and_then.simps fst_conv snd_conv)
  moreover have "idle (?s2\<lparr>sleepers := [], buildLock := True, isBusy := False, buildLock := False\<rparr>)"
    by (simp add: idle_def)
  moreover have "staged (?s2\<lparr>sleepers := [], buildLock := True, isBusy := False, buildLock := False\<rparr>) = Some src"
    using st by (simp add: resetBusyAfter_def)
  ultimately show ?thesis
    by blast
qed

lemma cycles_stage_last:
  assumes "idle s" and "\<forall>r\<in>set rs. stages r (payload r)"
  shows "\<exists>cs s'. run (concat (map cycle rs)) s = Returns (cs, s') \<and> idle s'
           \<and> staged s' = (if rs = [] then staged s else Some (payload (last rs)))"
  using assms
proof (induction rs arbitrary: s)
  case Nil
  then show ?case by simp
next
  case (Cons r rs)
  from Cons.prems obtain c1 s1 where
    one: "run (cycle r) s = Returns (c1, s1)" "idle s1" "staged s1 = Some (payload r)"
    using cycle_stages [of s r "payload r"] by auto
  from Cons.IH [of s1] Cons.prems one(2) obtain c2 s2 where
    rest: "run (concat (map cycle rs)) s1 = Returns (c2, s2)" "idle s2"
      "staged s2 = (if rs = [] then staged s1 else Some (payload (last rs)))"
    by auto
  have "run (concat (map cycle (r # rs))) s = Returns (c1 @ c2, s2)"
    by (simp add: run_append one(1) rest(1))
  with rest one(3) show ?case
    by auto
qed

text \<open>
  Claim C9. Starting idle, after any non-empty sequence of successful stagings (each
  followed by its scheduled release) the staged file holds exactly the payload of the
  last one, and \<^verbatim>\<open>DownloadVddkTar\<close> serves exactly those bytes: one staging round-trips,
  and a later staging replaces the earlier content whole.
\<close>

theorem staging_round_trip:
  assumes "idle s" and "rs \<noteq> []" and "\<forall>r\<in>set rs. stages r (payload r)"
      and "fst (prepareD q) = StatusOK" and "statFault q = None"
  shows "\<exists>cs s'. run (concat (map cycle rs)) s = Returns (cs, s')
           \<and> staged s' = Some (payload (last rs))
           \<and> DownloadVddkTar q s' =
               (\<lparr>written = [Header ''Content-Disposition''
                               (''attachment; filename='' @ [CHR 0x22] @ vddkTarFileName @ [CHR 0x22]),
                             Header ''Content-Type'' ''application/octet-stream'',
                             File (payload (last rs))],
                  calls = [OsStat, ServeFile]\<rparr>, s')"
proof -
  from cycles_stage_last [OF assms(1) assms(3)] assms(2) obtain cs s' where
    r: "run (concat (map cycle rs)) s = Returns (cs, s')" "staged s' = Some (payload (last rs))"
    by auto
  have "DownloadVddkTar q s' =
               (\<lparr>written = [Header ''Content-Disposition''
                               (''attachment; filename='' @ [CHR 0x22] @ vddkTarFileName @ [CHR 0x22]),
                             Header ''Content-Type'' ''application/octet-stream'',
                             File (payload (last rs))],
                  calls = [OsStat, ServeFile]\<rparr>, s')"
    using r(2) assms(4,5) by (simp add: DownloadVddkTar_def osStat_def ctx_defs)
  with r show ?thesis
    by blast
qed

theorem staging_round_trip_witness:
  "idle boot \<and> [upload ''one'', triggerFails, upload ''two''] \<noteq> []
   \<and> stages (upload ''one'') ''one'' \<and> stages triggerFails ''tar'' \<and> stages (upload ''two'') ''two''
   \<and> fst (prepareD download) = StatusOK \<and> statFault download = None
   \<and> (\<exists>cs s'. run (concat (map cycle [upload ''one'', triggerFails, upload ''two''])) boot = Returns (cs, s')
          \<and> staged s' = Some ''two''
          \<and> written (fst (DownloadVddkTar download s')) =
               [Header ''Content-Disposition'' (''attachment; filename='' @ [CHR 0x22] @ ''vddk.tar.gz'' @ [CHR 0x22]),
                Header ''Content-Type'' ''application/octet-stream'', File ''two''])"
proof -
  have h1: "idle boot"
    by (simp add: idle_def boot_def)
  have st: "stages (upload ''one'') ''one''" "stages triggerFails ''tar''" "stages (upload ''two'') ''two''"
    by (simp_all add: stages_def upload_def triggerFails_def)
  have pl: "payload (upload ''one'') = ''one''" "payload triggerFails = ''tar''"
    "payload (upload ''two'') = ''two''"
    by (simp_all add: payload_def upload_def triggerFails_def)
  have h3: "\<forall>r\<in>set [upload ''one'', triggerFails, upload ''two'']. stages r (payload r)"
    using st by (simp add: pl)
  have h4: "fst (prepareD download) = StatusOK" "statFault download = None"
    by (simp_all add: download_def)
  from staging_round_trip [OF h1 _ h3 h4] obtain cs s' where
    "run (concat (map cycle [upload ''one'', triggerFails, upload ''two''])) boot = Returns (cs, s')"
    "staged s' = Some ''two''"
    "written (fst (DownloadVddkTar download s')) =
               [Header ''Content-Disposition'' (''attachment; filename='' @ [CHR 0x22] @ ''vddk.tar.gz'' @ [CHR 0x22]),
                Header ''Content-Type'' ''application/octet-stream'', File ''two'']"
    by (auto simp add: pl vddkTarFileName_def)
  with h1 st h4 show ?thesis
    by blast
qed

subsection \<open>The scheduled release\<close>

lemma upload_accepted:
  assumes "\<not> buildLock s" and "\<not> isBusy s"
  shows "BuildImage (upload src) s =
           Returns (accepted,
                    s\<lparr>isBusy := True, dirExists := True, staged := Some src,
                       sleepers := sleepers s @ [clock s + 15000000000]\<rparr>)"
  using assms
  by (simp add: admitted upload_def okCluster_def stageAndTrigger_def BuildAndPushImage_def
      currentNamespace_def copyResult_def resetBusyAfter_def ctx_defs waitForDownload_def
      Second_def StatusOK_def accepted_def)

text \<open>
  Every event keeps the flag and the pending releases paired: a request is admitted only
  with the flag clear, hence with no release pending, and adds its own; a release that
  runs clears the flag and is the only one pending.
\<close>

lemma step_paired:
  assumes "paired s" and "step e s = Returns (c, s')"
  shows "paired s'"
proof (cases e)
  case (ReqBuildImage r)
  show ?thesis
  proof (cases "fst (prepareB r) = StatusOK")
    case False
    with assms ReqBuildImage show ?thesis
      by (simp add: BuildImage_def)
  next
    case ok: True
    show ?thesis
    proof (cases "isBusy s")
      case True
      with assms ReqBuildImage ok show ?thesis
        by (auto simp add: BuildImage_def Lock_def Unlock_def paired_def)
    next
      case False
      with assms ReqBuildImage ok
        stageAndTrigger_frame [of r "\<lparr>written = [], calls = [MutexLock, ReadIsBusy, WriteIsBusy True, MutexUnlock]\<rparr>" "s\<lparr>isBusy := True\<rparr>"]
      show ?thesis
        by (auto simp add: admitted paired_def resetBusyAfter_def)
    qed
  qed
next
  case (ReqImageUrl q)
  with assms show ?thesis by (auto simp add: ImageUrl_state dest: arg_cong [where f = snd])
next
  case (ReqDownload q)
  with assms show ?thesis by (auto simp add: DownloadVddkTar_state dest: arg_cong [where f = snd])
next
  case (Elapse d)
  with assms show ?thesis by (auto simp add: paired_def)
next
  case (WakeUp i)
  with assms show ?thesis
    by (auto simp add: paired_def wakeUp_def drop_nth_def resetBusy_def Lock_def Unlock_def
        split: if_splits)
qed

lemma run_paired:
  assumes "paired s" and "run es s = Returns (cs, s')"
  shows "paired s'"
  using assms
proof (induction es arbitrary: s cs)
  case Nil
  then show ?case by simp
next
  case (Cons e es)
  from Cons.prems(2) obtain c1 s1 where one: "step e s = Returns (c1, s1)"
    by (cases "step e s") auto
  with Cons.prems(1) have p1: "paired s1"
    by (rule step_paired)
  from Cons.prems(2) one obtain c2 where "run es s1 = Returns (c2, s')"
    by (cases "run es s1") auto
  with Cons.IH [of s1 c2] p1 show ?case
    by simp
qed

lemma wakeUp_free:
  assumes "\<not> buildLock u" and "i < length (sleepers u)" and "sleepers u ! i \<le> clock u"
  shows "wakeUp i u = Returns (u\<lparr>sleepers := drop_nth i (sleepers u), isBusy := False\<rparr>)"
  using assms by (simp add: wakeUp_def resetBusy_def Lock_def Unlock_def)

text \<open>
  Claim C5 as stated fails. It asks for an execution in which a release scheduled by an
  earlier cycle is still pending when a later request is admitted. A request is admitted
  only with the flag clear, and no execution from the start reaches a state with the flag
  clear and a release pending, nor one with the flag set and more or fewer than one
  release pending.
\<close>

theorem stale_release_counterexample:
  "\<not> (\<exists>es cs s. run es boot = Returns (cs, s)
          \<and> (isBusy s \<and> length (sleepers s) \<noteq> 1 \<or> \<not> isBusy s \<and> sleepers s \<noteq> []))"
proof
  assume "\<exists>es cs s. run es boot = Returns (cs, s)
          \<and> (isBusy s \<and> length (sleepers s) \<noteq> 1 \<or> \<not> isBusy s \<and> sleepers s \<noteq> [])"
  then obtain es cs s where r: "run es boot = Returns (cs, s)"
    and bad: "isBusy s \<and> length (sleepers s) \<noteq> 1 \<or> \<not> isBusy s \<and> sleepers s \<noteq> []"
    by blast
  have "paired boot"
    by (simp add: paired_def boot_def)
  then have "paired s"
    using r by (rule run_paired)
  with bad show False
    by (auto simp add: paired_def)
qed

text \<open>
  Claim C5, as the code has it. The release has no generation or epoch check and is safe:
  in any state \<open>u\<close> with the mutex free, a release that is due runs \<^verbatim>\<open>resetBusy\<close>, which
  returns, leaves the mutex free and clears the flag whichever request set it and
  whatever else is pending. But the program never brings a release of an earlier cycle
  to a later lease: in every state \<open>s\<close> that an execution of requests, waits and scheduled
  releases reaches from the start, the mutex is free, the flag is set exactly when one
  release is pending, and a release that runs there leaves the flag clear and nothing
  pending.
\<close>

theorem release_unguarded_never_stale:
  assumes "run es boot = Returns (cs, s)"
      and "\<not> buildLock u" and "i < length (sleepers u)" and "sleepers u ! i \<le> clock u"
  shows "wakeUp i u = Returns (u\<lparr>sleepers := drop_nth i (sleepers u), isBusy := False\<rparr>)
       \<and> \<not> buildLock s
       \<and> (if isBusy s then length (sleepers s) = 1 else sleepers s = [])
       \<and> (\<forall>j s'. wakeUp j s = Returns s' \<longrightarrow>
              \<not> isBusy s' \<and> \<not> buildLock s' \<and> sleepers s' = [])"
proof -
  have "paired boot"
    by (simp add: paired_def boot_def)
  then have p: "paired s"
    using assms(1) by (rule run_paired)
  have fire: "wakeUp i u = Returns (u\<lparr>sleepers := drop_nth i (sleepers u), isBusy := False\<rparr>)"
    using assms(2-4) by (rule wakeUp_free)
  have pair: "\<not> buildLock s \<and> (if isBusy s then length (sleepers s) = 1 else sleepers s = [])"
    using p by (simp add: paired_def)
  have "\<not> isBusy s' \<and> \<not> buildLock s' \<and> sleepers s' = []" if "wakeUp j s = Returns s'" for j s'
  proof -
    from that have j: "j < length (sleepers s)" "sleepers s ! j \<le> clock s"
      by (simp_all add: wakeUp_def split: if_splits)
    with p have "j = 0" "length (sleepers s) = 1"
      by (auto simp add: paired_def split: if_splits)
    then have "drop_nth j (sleepers s) = []"
      by (simp add: drop_nth_def)
    with that j p show ?thesis
      by (auto simp add: wakeUp_free paired_def)
  qed
  with fire pair show ?thesis
    by blast
qed

theorem release_unguarded_never_stale_witness:
  "run cycleThenRequest boot =
     Returns ([accepted, ctx0, ctx0, accepted],
              boot\<lparr>isBusy := True, sleepers := [30000000000], clock := 15000000000,
                    dirExists := True, staged := Some ''two''\<rparr>)
   \<and> run [ReqBuildImage (upload ''one''), Elapse 15000000000] boot =
       Returns ([accepted, ctx0], releaseDue)
   \<and> \<not> buildLock releaseDue \<and> 0 < length (sleepers releaseDue)
   \<and> sleepers releaseDue ! 0 \<le> clock releaseDue
   \<and> wakeUp 0 releaseDue = Returns (releaseDue\<lparr>sleepers := [], isBusy := False\<rparr>)
   \<and> length (sleepers (boot\<lparr>isBusy := True, sleepers := [30000000000], clock := 15000000000,
                                dirExists := True, staged := Some ''two''\<rparr>)) = 1"
proof -
  let ?s1 = "boot\<lparr>isBusy := True, sleepers := [15000000000], dirExists := True,
                   staged := Some ''one''\<rparr>"
  let ?s2 = "?s1\<lparr>clock := 15000000000\<rparr>"
  let ?s3 = "boot\<lparr>isBusy := False, sleepers := [], clock := 15000000000, dirExists := True,
                   staged := Some ''one''\<rparr>"
  let ?s4 = "boot\<lparr>isBusy := True, sleepers := [30000000000], clock := 15000000000,
                   dirExists := True, staged := Some ''two''\<rparr>"
  have e1: "step (ReqBuildImage (upload ''one'')) boot = Returns (accepted, ?s1)"
    by (simp add: upload_accepted boot_def)
  have e2: "step (Elapse 15000000000) ?s1 = Returns (ctx0, ?s2)"
    by (simp add: boot_def)
  have e3: "step (WakeUp 0) ?s2 = Returns (ctx0, ?s3)"
    by (simp add: wakeUp_def drop_nth_def resetBusy_free boot_def)
  have e4: "step (ReqBuildImage (upload ''two'')) ?s3 = Returns (accepted, ?s4)"
    by (simp add: upload_accepted boot_def)
  have r: "run cycleThenRequest boot = Returns ([accepted, ctx0, ctx0, accepted], ?s4)"
    by (simp only: cycleThenRequest_def run.simps e1 e2 e3 e4 and_then.simps fst_conv snd_conv)
  have d: "?s2 = releaseDue"
    by (simp add: releaseDue_def boot_def)
  have r0: "run [ReqBuildImage (upload ''one''), Elapse 15000000000] boot =
              Returns ([accepted, ctx0], releaseDue)"
    by (simp only: run.simps e1 e2 d and_then.simps fst_conv snd_conv)
  have h: "\<not> buildLock releaseDue" "0 < length (sleepers releaseDue)"
    "sleepers releaseDue ! 0 \<le> clock releaseDue"
    by (simp_all add: releaseDue_def boot_def)
  from release_unguarded_never_stale [OF r h] r r0 h show ?thesis
    by (simp add: releaseDue_def boot_def drop_nth_def)
qed

subsection \<open>Concurrent admissions\<close>

lemma excl_stay:
  assumes "excl s pcs" and "i < length pcs" and "inCS (pcs ! i)" and "inCS p"
      and "buildLock s' = buildLock s"
  shows "excl s' (pcs[i := p])"
proof -
  have lk: "buildLock s" using assms(1,2,3) by (auto simp add: excl_def)
  have only: "\<forall>j<length pcs. inCS (pcs ! j) \<longrightarrow> j = i"
    using assms(1,2,3) by (auto simp add: excl_def)
  have "\<exists>k<length (pcs[i := p]). inCS (pcs[i := p] ! k)"
    using assms(2,4) by (intro exI [of _ i]) simp
  moreover have "\<forall>k<length pcs. \<forall>j<length pcs.
      inCS (pcs[i := p] ! k) \<and> inCS (pcs[i := p] ! j) \<longrightarrow> k = j"
    using only by (metis nth_list_update_neq)
  ultimately show ?thesis
    using lk assms(5) by (simp add: excl_def)
qed

lemma excl_enter:
  assumes "excl s pcs" and "i < length pcs" and "\<not> buildLock s" and "inCS p"
      and "buildLock s'"
  shows "excl s' (pcs[i := p])"
proof -
  have none: "\<forall>j<length pcs. \<not> inCS (pcs ! j)"
    using assms(1,3) by (auto simp add: excl_def)
  have "\<exists>k<length (pcs[i := p]). inCS (pcs[i := p] ! k)"
    using assms(2,4) by (intro exI [of _ i]) simp
  moreover have "\<forall>k<length pcs. \<forall>j<length pcs.
      inCS (pcs[i := p] ! k) \<and> inCS (pcs[i := p] ! j) \<longrightarrow> k = j"
    using none by (metis nth_list_update_neq)
  ultimately show ?thesis
    using assms(5) by (simp add: excl_def)
qed

lemma excl_leave:
  assumes "excl s pcs" and "i < length pcs" and "inCS (pcs ! i)" and "\<not> inCS p"
      and "\<not> buildLock s'"
  shows "excl s' (pcs[i := p])"
proof -
  have only: "\<forall>j<length pcs. inCS (pcs ! j) \<longrightarrow> j = i"
    using assms(1,2,3) by (auto simp add: excl_def)
  have "\<forall>k<length pcs. \<not> inCS (pcs[i := p] ! k)"
    using only assms(4) by (metis nth_list_update_eq nth_list_update_neq)
  then show ?thesis
    using assms(5) by (simp add: excl_def)
qed

lemma excl_alone:
  assumes "excl s pcs" and "i < length pcs" and "inCS (pcs ! i)" and "j < length pcs" and "j \<noteq> i"
  shows "\<not> inCS (pcs ! j)"
  using assms by (auto simp add: excl_def)

lemma excl_locked:
  assumes "excl s pcs" and "i < length pcs" and "inCS (pcs ! i)"
  shows "buildLock s"
  using assms by (auto simp add: excl_def)


lemma held_snoc: "held b (tr @ [x]) = (case x of Acq i \<Rightarrow> True | Rel i \<Rightarrow> False)"
  by (induction b tr rule: held.induct) (simp_all split: label.splits)

lemma separated_snoc:
  "separated b (tr @ [x]) = (separated b tr \<and> (case x of Acq i \<Rightarrow> \<not> held b tr | Rel i \<Rightarrow> True))"
  by (induction b tr rule: separated.induct) (auto split: label.splits)

lemma held_Nil_or: "held b tr \<Longrightarrow> b \<or> tr \<noteq> []"
  by (cases tr) simp_all

lemma Inv_L62:
  assumes "Inv b (s, pcs, tr)" and "i < length pcs" and "pcs ! i = L62" and "\<not> buildLock s"
  shows "Inv b (s\<lparr>buildLock := True\<rparr>, pcs[i := L63], tr)"
proof -
  have "excl (s\<lparr>buildLock := True\<rparr>) (pcs[i := L63])"
    using assms by (intro excl_enter [of s]) (simp_all add: Inv_def inCS_def)
  then show ?thesis
    using assms by (auto simp add: Inv_def nth_list_update)
qed

lemma Inv_L63:
  assumes "Inv b (s, pcs, tr)" and "i < length pcs" and "pcs ! i = L63"
  shows "Inv b (s, pcs[i := (if isBusy s then L64 else L68)], tr)"
proof -
  have "excl s (pcs[i := (if isBusy s then L64 else L68)])"
    using assms by (intro excl_stay [of s]) (simp_all add: Inv_def inCS_def)
  then show ?thesis
    using assms by (auto simp add: Inv_def nth_list_update dest: held_Nil_or)
qed

lemma Inv_L64:
  assumes "Inv b (s, pcs, tr)" and "i < length pcs" and "pcs ! i = L64"
  shows "Inv b (s\<lparr>buildLock := False\<rparr>, pcs[i := Rejected], tr)"
proof -
  have "excl (s\<lparr>buildLock := False\<rparr>) (pcs[i := Rejected])"
    using assms by (intro excl_leave [of s]) (simp_all add: Inv_def inCS_def)
  then show ?thesis
    using assms by (auto simp add: Inv_def nth_list_update)
qed

lemma Inv_L68:
  assumes "Inv b (s, pcs, tr)" and "i < length pcs" and "pcs ! i = L68"
  shows "Inv b (s\<lparr>isBusy := True\<rparr>, pcs[i := L69], tr @ [Acq i])"
proof -
  have e: "excl (s\<lparr>isBusy := True\<rparr>) (pcs[i := L69])"
    using assms by (intro excl_stay [of s]) (simp_all add: Inv_def inCS_def)
  have alone: "\<forall>j<length pcs. j \<noteq> i \<longrightarrow> pcs ! j \<noteq> L68"
    using assms excl_alone [of s pcs i] by (auto simp add: Inv_def inCS_def)
  have idle: "\<not> held b tr"
    using assms by (auto simp add: Inv_def)
  show ?thesis
    using assms e alone idle
    by (auto simp add: Inv_def nth_list_update held_snoc separated_snoc)
qed

lemma Inv_L69:
  assumes "Inv b (s, pcs, tr)" and "i < length pcs" and "pcs ! i = L69"
  shows "Inv b (s\<lparr>buildLock := False\<rparr>, pcs[i := Admitted], tr)"
proof -
  have "excl (s\<lparr>buildLock := False\<rparr>) (pcs[i := Admitted])"
    using assms by (intro excl_leave [of s]) (simp_all add: Inv_def inCS_def)
  then show ?thesis
    using assms by (auto simp add: Inv_def nth_list_update)
qed

lemma Inv_R259:
  assumes "Inv b (s, pcs, tr)" and "i < length pcs" and "pcs ! i = R259" and "\<not> buildLock s"
  shows "Inv b (s\<lparr>buildLock := True\<rparr>, pcs[i := R260], tr)"
proof -
  have "excl (s\<lparr>buildLock := True\<rparr>) (pcs[i := R260])"
    using assms by (intro excl_enter [of s]) (simp_all add: Inv_def inCS_def)
  then show ?thesis
    using assms by (auto simp add: Inv_def nth_list_update)
qed

lemma Inv_R260:
  assumes "Inv b (s, pcs, tr)" and "i < length pcs" and "pcs ! i = R260"
  shows "Inv b (s\<lparr>isBusy := False\<rparr>, pcs[i := R261], tr @ [Rel i])"
proof -
  have e: "excl (s\<lparr>isBusy := False\<rparr>) (pcs[i := R261])"
    using assms by (intro excl_stay [of s]) (simp_all add: Inv_def inCS_def)
  show ?thesis
    using assms e
    by (auto simp add: Inv_def nth_list_update held_snoc separated_snoc)
qed

lemma Inv_R261:
  assumes "Inv b (s, pcs, tr)" and "i < length pcs" and "pcs ! i = R261"
  shows "Inv b (s\<lparr>buildLock := False\<rparr>, pcs[i := Released], tr)"
proof -
  have "excl (s\<lparr>buildLock := False\<rparr>) (pcs[i := Released])"
    using assms by (intro excl_leave [of s]) (simp_all add: Inv_def inCS_def)
  then show ?thesis
    using assms by (auto simp add: Inv_def nth_list_update)
qed


lemma advance_Inv:
  assumes "Inv b cf"
  shows "Inv b (advance i cf)"
proof (cases cf)
  case (fields s pcs tr)
  show ?thesis
  proof (cases "i < length pcs")
    case False
    then have "advance i cf = cf"
      using fields by (simp add: advance_def)
    with assms show ?thesis
      by simp
  next
    case i: True
    have inv: "Inv b (s, pcs, tr)"
      using assms by (simp only: fields)
    show ?thesis
    proof (cases "pcs ! i")
      case L62
      with i fields inv Inv_L62 [OF inv i] show ?thesis
        by (simp add: advance_def Lock_def)
    next
      case L63
      with i fields Inv_L63 [OF inv i] show ?thesis
        by (simp add: advance_def)
    next
      case L64
      from inv i L64 have "buildLock s"
        by (intro excl_locked [of s pcs i]) (simp_all add: Inv_def inCS_def)
      with L64 i fields Inv_L64 [OF inv i] show ?thesis
        by (simp add: advance_def Unlock_def)
    next
      case L68
      with i fields Inv_L68 [OF inv i] show ?thesis
        by (simp add: advance_def)
    next
      case L69
      from inv i L69 have "buildLock s"
        by (intro excl_locked [of s pcs i]) (simp_all add: Inv_def inCS_def)
      with L69 i fields Inv_L69 [OF inv i] show ?thesis
        by (simp add: advance_def Unlock_def)
    next
      case Rejected
      with i fields inv show ?thesis
        by (simp add: advance_def)
    next
      case Admitted
      with i fields inv show ?thesis
        by (simp add: advance_def)
    next
      case R259
      with i fields inv Inv_R259 [OF inv i] show ?thesis
        by (simp add: advance_def Lock_def)
    next
      case R260
      with i fields Inv_R260 [OF inv i] show ?thesis
        by (simp add: advance_def)
    next
      case R261
      from inv i R261 have "buildLock s"
        by (intro excl_locked [of s pcs i]) (simp_all add: Inv_def inCS_def)
      with R261 i fields Inv_R261 [OF inv i] show ?thesis
        by (simp add: advance_def Unlock_def)
    next
      case Released
      with i fields inv show ?thesis
        by (simp add: advance_def)
    qed
  qed
qed

lemma interleave_Inv: "Inv b cf \<Longrightarrow> Inv b (interleave sch cf)"
  by (induction sch arbitrary: cf) (simp_all add: advance_Inv)

lemma Inv_start:
  assumes "\<not> buildLock s" and "set pcs \<subseteq> {L62, R259}"
  shows "Inv (isBusy s) (s, pcs, [])"
proof -
  have "\<forall>i<length pcs. pcs ! i = L62 \<or> pcs ! i = R259"
    using assms(2) nth_mem by fastforce
  then show ?thesis
    using assms(1) by (auto simp add: Inv_def excl_def inCS_def)
qed

text \<open>Threads and their number stay; without a release goroutine none appears.\<close>

lemma attempts_update:
  assumes "list_all attempt pcs" and "attempt p"
  shows "list_all attempt (pcs[i := p])"
  using assms
  by (metis list_all_length length_list_update nth_list_update_eq nth_list_update_neq)

lemma advance_attempts:
  assumes "list_all attempt pcs"
  shows "list_all attempt (fst (snd (advance i (s, pcs, tr))))"
proof (cases "i < length pcs")
  case False
  with assms show ?thesis
    by (simp add: advance_def)
next
  case True
  with assms have at: "attempt (pcs ! i)"
    by (simp add: list_all_length)
  have upd: "list_all attempt (pcs[i := L63])" "list_all attempt (pcs[i := L64])"
    "list_all attempt (pcs[i := L68])" "list_all attempt (pcs[i := L69])"
    "list_all attempt (pcs[i := Rejected])" "list_all attempt (pcs[i := Admitted])"
    using assms by (simp_all add: attempts_update attempt_def)
  show ?thesis
  proof (cases "pcs ! i")
    case R259
    with at show ?thesis by (simp add: attempt_def)
  next
    case R260
    with at show ?thesis by (simp add: attempt_def)
  next
    case R261
    with at show ?thesis by (simp add: attempt_def)
  next
    case Released
    with at show ?thesis by (simp add: attempt_def)
  qed (simp_all add: advance_def Lock_def Unlock_def True upd assms)
qed

lemma advance_length: "length (fst (snd (advance i cf))) = length (fst (snd cf))"
  by (simp add: advance_def Let_def Lock_def Unlock_def split: pc.splits)

lemma interleave_length: "length (fst (snd (interleave sch cf))) = length (fst (snd cf))"
  by (induction sch arbitrary: cf) (simp_all add: advance_length)

lemma interleave_attempts:
  "list_all attempt (fst (snd cf)) \<Longrightarrow> list_all attempt (fst (snd (interleave sch cf)))"
proof (induction sch arbitrary: cf)
  case Nil
  then show ?case by simp
next
  case (Cons i sch)
  from Cons.prems have "list_all attempt (fst (snd (advance i cf)))"
    using advance_attempts [of "fst (snd cf)" i "fst cf" "snd (snd cf)"] by simp
  then show ?case
    using Cons.IH by simp
qed

lemma separated_no_release:
  assumes "separated b tr" and "\<forall>j. Rel j \<notin> set tr"
  shows "tr = [] \<or> (\<exists>i. tr = [Acq i] \<and> \<not> b)"
proof (cases tr)
  case Nil
  then show ?thesis by simp
next
  case (Cons x tr')
  show ?thesis
  proof (cases x)
    case (Acq i)
    with Cons assms have "\<not> b" and sep: "separated True tr'" and nr: "\<forall>j. Rel j \<notin> set tr'"
      by simp_all
    have "tr' = []"
    proof (cases tr')
      case (Cons y tr'')
      with sep nr show ?thesis by (cases y) auto
    qed simp
    with Cons Acq \<open>\<not> b\<close> show ?thesis by simp
  next
    case (Rel j)
    with Cons assms(2) show ?thesis by auto
  qed
qed


text \<open>
  Safety, for every interleaving: the recorded writes are separated, mutual exclusion
  holds, the flag is still clear when the goroutine that saw it clear sets it, and the
  goroutines past the check are exactly those that acquired; with no release among them
  at most one admission sees the flag clear.
\<close>

lemma admission_safety:
  assumes "\<not> buildLock s" and "set pcs \<subseteq> {L62, R259}"
      and "interleave sch (s, pcs, []) = (s', pcs', tr)"
  shows "separated (isBusy s) tr
       \<and> isBusy s' = held (isBusy s) tr
       \<and> excl s' pcs'
       \<and> (\<forall>i<length pcs'. pcs' ! i = L68 \<longrightarrow> \<not> isBusy s')
       \<and> (\<forall>i<length pcs'. (pcs' ! i = L69 \<or> pcs' ! i = Admitted) = (Acq i \<in> set tr))
       \<and> (R259 \<notin> set pcs \<longrightarrow>
            (\<forall>i<length pcs'. \<forall>j<length pcs'. won (pcs' ! i) \<and> won (pcs' ! j) \<longrightarrow> i = j)
          \<and> (isBusy s \<longrightarrow> (\<forall>i<length pcs'. \<not> won (pcs' ! i))))
       \<and> (R259 \<notin> set pcs \<and> pcs \<noteq> [] \<and> set pcs' \<subseteq> {Admitted, Rejected} \<longrightarrow>
            (if isBusy s then (\<forall>i<length pcs'. pcs' ! i = Rejected)
             else (\<exists>i<length pcs'. pcs' ! i = Admitted
                     \<and> (\<forall>j<length pcs'. j \<noteq> i \<longrightarrow> pcs' ! j = Rejected))))"
proof -
  have "Inv (isBusy s) (interleave sch (s, pcs, []))"
    using assms(1,2) by (intro interleave_Inv Inv_start)
  then have inv: "Inv (isBusy s) (s', pcs', tr)"
    by (simp only: assms(3))
  have ex: "excl s' pcs'"
    and fl: "isBusy s' = held (isBusy s) tr"
    and sep: "separated (isBusy s) tr"
    and set68: "\<forall>i<length pcs'. pcs' ! i = L68 \<longrightarrow> \<not> isBusy s'"
    and winners: "\<forall>i<length pcs'. (pcs' ! i = L69 \<or> pcs' ! i = Admitted) = (Acq i \<in> set tr)"
    and bound: "\<forall>i. Acq i \<in> set tr \<longrightarrow> i < length pcs'"
    and losers: "\<forall>i<length pcs'. pcs' ! i = L64 \<or> pcs' ! i = Rejected \<longrightarrow> isBusy s \<or> tr \<noteq> []"
    and rels: "\<forall>j. Rel j \<in> set tr \<longrightarrow> j < length pcs' \<and> (pcs' ! j = R261 \<or> pcs' ! j = Released)"
    using inv unfolding Inv_def prod.case by blast+
  have len: "length pcs' = length pcs"
    using interleave_length [of sch "(s, pcs, [])"] by (simp add: assms(3))
  have shape: "tr = [] \<or> (\<exists>i. tr = [Acq i] \<and> \<not> isBusy s)" if "R259 \<notin> set pcs"
  proof -
    have "list_all attempt pcs"
      using assms(2) that by (auto simp add: list_all_iff attempt_def)
    then have "list_all attempt pcs'"
      using interleave_attempts [of "(s, pcs, [])" sch] by (simp add: assms(3))
    then have "\<forall>j<length pcs'. pcs' ! j \<noteq> R261 \<and> pcs' ! j \<noteq> Released"
      by (auto simp add: list_all_length attempt_def)
    with rels have "\<forall>j. Rel j \<notin> set tr"
      by blast
    with sep show ?thesis
      by (rule separated_no_release)
  qed
  have one: "(\<forall>i<length pcs'. \<forall>j<length pcs'. won (pcs' ! i) \<and> won (pcs' ! j) \<longrightarrow> i = j)
             \<and> (isBusy s \<longrightarrow> (\<forall>i<length pcs'. \<not> won (pcs' ! i)))" if "R259 \<notin> set pcs"
  proof -
    from shape [OF that] show ?thesis
    proof
      assume e: "tr = []"
      then have none: "\<forall>i<length pcs'. pcs' ! i \<noteq> L69 \<and> pcs' ! i \<noteq> Admitted"
        using winners by simp
      then have w: "\<forall>i<length pcs'. won (pcs' ! i) \<longrightarrow> inCS (pcs' ! i)"
        by (simp add: won_def inCS_def)
      have "\<forall>i<length pcs'. \<forall>j<length pcs'. won (pcs' ! i) \<and> won (pcs' ! j) \<longrightarrow> i = j"
        using w ex by (simp add: excl_def)
      moreover have "isBusy s \<longrightarrow> (\<forall>i<length pcs'. \<not> won (pcs' ! i))"
        using e fl set68 none by (auto simp add: won_def)
      ultimately show ?thesis
        by simp
    next
      assume "\<exists>i. tr = [Acq i] \<and> \<not> isBusy s"
      then obtain k where k: "tr = [Acq k]" "\<not> isBusy s"
        by blast
      then have "isBusy s'"
        using fl by simp
      then have "\<forall>i<length pcs'. won (pcs' ! i) \<longrightarrow> i = k"
        using set68 winners k(1) by (auto simp add: won_def)
      then show ?thesis
        using k(2) by blast
    qed
  qed
  have fin: "if isBusy s then (\<forall>i<length pcs'. pcs' ! i = Rejected)
             else (\<exists>i<length pcs'. pcs' ! i = Admitted
                     \<and> (\<forall>j<length pcs'. j \<noteq> i \<longrightarrow> pcs' ! j = Rejected))"
    if "R259 \<notin> set pcs" and "pcs \<noteq> []" and "set pcs' \<subseteq> {Admitted, Rejected}"
  proof -
    have ended: "\<forall>i<length pcs'. pcs' ! i = Admitted \<or> pcs' ! i = Rejected"
      using that(3) nth_mem by fastforce
    from shape [OF that(1)] show ?thesis
    proof
      assume e: "tr = []"
      then have none: "\<forall>i<length pcs'. pcs' ! i = Rejected"
        using winners ended by auto
      have "0 < length pcs'"
        using that(2) len by simp
      with none losers e have "isBusy s"
        by auto
      with none show ?thesis
        by simp
    next
      assume "\<exists>i. tr = [Acq i] \<and> \<not> isBusy s"
      then obtain k where k: "tr = [Acq k]" "\<not> isBusy s"
        by blast
      then have kl: "k < length pcs'"
        using bound by simp
      have "pcs' ! k = L69 \<or> pcs' ! k = Admitted"
        using winners kl k(1) by simp
      moreover have "pcs' ! k = Admitted \<or> pcs' ! k = Rejected"
        using ended kl by simp
      ultimately have "pcs' ! k = Admitted"
        by auto
      moreover have "\<forall>j<length pcs'. j \<noteq> k \<longrightarrow> pcs' ! j = Rejected"
        using winners ended k(1) by auto
      ultimately show ?thesis
        using k(2) kl by auto
    qed
  qed
  from sep fl ex set68 winners one fin show ?thesis
    by blast
qed

text \<open>
  Progress. Four steps in a row end a goroutine that holds the mutex or finds it free,
  and change nothing for one that finds it held.
\<close>

lemma interleave_append: "interleave (xs @ ys) cf = interleave ys (interleave xs cf)"
  by (induction xs arbitrary: cf) simp_all

lemma four_outside:
  assumes "\<not> buildLock s" and "i < length pcs" and "\<not> inCS (pcs ! i)"
  shows "\<exists>s' p tr'. interleave [i, i, i, i] (s, pcs, tr) = (s', pcs[i := p], tr')
           \<and> \<not> buildLock s' \<and> ended p"
proof (cases "pcs ! i")
  case L62
  with assms(1,2) show ?thesis
    by (cases "isBusy s") (auto simp add: advance_def Lock_def Unlock_def ended_def)
next
  case R259
  with assms(1,2) show ?thesis
    by (auto simp add: advance_def Lock_def Unlock_def ended_def)
next
  case Rejected
  then have "pcs[i := Rejected] = pcs"
    using list_update_id [of pcs i] by simp
  with Rejected assms(1,2) have "interleave [i, i, i, i] (s, pcs, tr) = (s, pcs[i := Rejected], tr)"
    by (simp add: advance_def)
  with assms(1) show ?thesis
    by (auto simp add: ended_def)
next
  case Admitted
  then have "pcs[i := Admitted] = pcs"
    using list_update_id [of pcs i] by simp
  with Admitted assms(1,2) have "interleave [i, i, i, i] (s, pcs, tr) = (s, pcs[i := Admitted], tr)"
    by (simp add: advance_def)
  with assms(1) show ?thesis
    by (auto simp add: ended_def)
next
  case Released
  then have "pcs[i := Released] = pcs"
    using list_update_id [of pcs i] by simp
  with Released assms(1,2) have "interleave [i, i, i, i] (s, pcs, tr) = (s, pcs[i := Released], tr)"
    by (simp add: advance_def)
  with assms(1) show ?thesis
    by (auto simp add: ended_def)
qed (use assms(3) in \<open>simp_all add: inCS_def\<close>)

lemma four_holder:
  assumes "buildLock s" and "i < length pcs" and "inCS (pcs ! i)"
  shows "\<exists>s' p tr'. interleave [i, i, i, i] (s, pcs, tr) = (s', pcs[i := p], tr')
           \<and> \<not> buildLock s' \<and> ended p"
proof (cases "pcs ! i")
  case L63
  with assms(1,2) show ?thesis
    by (cases "isBusy s") (auto simp add: advance_def Lock_def Unlock_def ended_def)
next
  case L64
  with assms(1,2) show ?thesis
    by (auto simp add: advance_def Lock_def Unlock_def ended_def)
next
  case L68
  with assms(1,2) show ?thesis
    by (auto simp add: advance_def Lock_def Unlock_def ended_def)
next
  case L69
  with assms(1,2) show ?thesis
    by (auto simp add: advance_def Lock_def Unlock_def ended_def)
next
  case R260
  with assms(1,2) show ?thesis
    by (auto simp add: advance_def Lock_def Unlock_def ended_def)
next
  case R261
  with assms(1,2) show ?thesis
    by (auto simp add: advance_def Lock_def Unlock_def ended_def)
qed (use assms(3) in \<open>simp_all add: inCS_def\<close>)

lemma four_blocked:
  assumes "buildLock s" and "i < length pcs" and "\<not> inCS (pcs ! i)"
  shows "interleave [i, i, i, i] (s, pcs, tr) = (s, pcs, tr)"
  using assms by (cases "pcs ! i") (simp_all add: advance_def Lock_def inCS_def)

lemma four_absent:
  assumes "\<not> i < length pcs"
  shows "interleave [i, i, i, i] (s, pcs, tr) = (s, pcs, tr)"
  using assms by (simp add: advance_def)


lemma outside_update:
  assumes "list_all (\<lambda>p. \<not> inCS p) pcs" and "ended p"
  shows "list_all (\<lambda>p. \<not> inCS p) (pcs[i := p])"
proof -
  have "\<not> inCS p"
    using assms(2) by (auto simp add: ended_def inCS_def)
  with assms(1) show ?thesis
    by (metis (mono_tags, lifting) list_all_length length_list_update nth_list_update_eq
        nth_list_update_neq)
qed

lemma ended_update:
  assumes "ended p" and "j < length pcs" and "j = i \<or> ended (pcs ! j)"
  shows "ended (pcs[i := p] ! j)"
  using assms by (cases "j = i") simp_all

text \<open>From a calm configuration, a pass of turns leaves it calm and ends every goroutine it names.\<close>

lemma pass_calm:
  assumes "calm s pcs" and "interleave (turns js) (s, pcs, tr) = (s', pcs', tr')"
  shows "calm s' pcs' \<and> length pcs' = length pcs
       \<and> (\<forall>j<length pcs. j \<in> set js \<or> ended (pcs ! j) \<longrightarrow> ended (pcs' ! j))"
  using assms
proof (induction js arbitrary: s pcs tr)
  case Nil
  then show ?case by (simp add: turns_def)
next
  case (Cons i js)
  have split: "interleave (turns (i # js)) (s, pcs, tr) =
                 interleave (turns js) (interleave [i, i, i, i] (s, pcs, tr))"
    by (simp add: turns_def)
  show ?case
  proof (cases "i < length pcs")
    case False
    then have "interleave [i, i, i, i] (s, pcs, tr) = (s, pcs, tr)"
      by (rule four_absent)
    with split Cons.prems(2) have "interleave (turns js) (s, pcs, tr) = (s', pcs', tr')"
      by simp
    with Cons.IH [OF Cons.prems(1)] False show ?thesis
      by auto
  next
    case True
    from Cons.prems(1) True have out: "\<not> buildLock s" "\<not> inCS (pcs ! i)"
      by (simp_all add: calm_def list_all_length)
    from four_outside [OF out(1) True out(2), of tr] obtain s1 p tr1 where
      one: "interleave [i, i, i, i] (s, pcs, tr) = (s1, pcs[i := p], tr1)"
        "\<not> buildLock s1" "ended p"
      by blast
    have c1: "calm s1 (pcs[i := p])"
      using Cons.prems(1) one(2,3) by (simp add: calm_def outside_update)
    from split Cons.prems(2) one(1)
    have "interleave (turns js) (s1, pcs[i := p], tr1) = (s', pcs', tr')"
      by simp
    from Cons.IH [OF c1 this]
    have ih: "calm s' pcs'" "length pcs' = length pcs"
      "\<forall>j<length pcs. j \<in> set js \<or> ended (pcs[i := p] ! j) \<longrightarrow> ended (pcs' ! j)"
      by simp_all
    have "\<forall>j<length pcs. j \<in> set (i # js) \<or> ended (pcs ! j) \<longrightarrow> ended (pcs' ! j)"
    proof (intro allI impI)
      fix j
      assume j: "j < length pcs" and c: "j \<in> set (i # js) \<or> ended (pcs ! j)"
      show "ended (pcs' ! j)"
      proof (cases "j \<in> set js")
        case True
        with ih(3) j show ?thesis by simp
      next
        case False
        with c have "j = i \<or> ended (pcs ! j)" by auto
        with one(3) j have "ended (pcs[i := p] ! j)" by (intro ended_update)
        with ih(3) j show ?thesis by simp
      qed
    qed
    with ih(1,2) show ?thesis
      by simp
  qed
qed

text \<open>From any configuration with mutual exclusion, a pass that names the holder ends calm.\<close>

lemma pass_excl:
  assumes "excl s pcs" and "\<forall>j<length pcs. inCS (pcs ! j) \<longrightarrow> j \<in> set js"
      and "interleave (turns js) (s, pcs, tr) = (s', pcs', tr')"
  shows "calm s' pcs' \<and> length pcs' = length pcs"
  using assms
proof (induction js arbitrary: s pcs tr)
  case Nil
  then have "calm s pcs"
    by (auto simp add: excl_def calm_def list_all_length)
  with Nil.prems(3) show ?case
    by (simp add: turns_def)
next
  case (Cons i js)
  have split: "interleave (turns (i # js)) (s, pcs, tr) =
                 interleave (turns js) (interleave [i, i, i, i] (s, pcs, tr))"
    by (simp add: turns_def)
  show ?case
  proof (cases "i < length pcs \<and> inCS (pcs ! i)")
    case True
    then have i: "i < length pcs" "inCS (pcs ! i)"
      by simp_all
    have lk: "buildLock s"
      using Cons.prems(1) i by (rule excl_locked)
    from four_holder [OF lk i, of tr] obtain s1 p tr1 where
      one: "interleave [i, i, i, i] (s, pcs, tr) = (s1, pcs[i := p], tr1)"
        "\<not> buildLock s1" "ended p"
      by blast
    have "\<not> inCS (pcs[i := p] ! j)" if "j < length pcs" for j
    proof (cases "j = i")
      case True
      with one(3) i(1) show ?thesis by (auto simp add: ended_def inCS_def)
    next
      case False
      with Cons.prems(1) i that show ?thesis
        using excl_alone [of s pcs i j] by simp
    qed
    then have c1: "calm s1 (pcs[i := p])"
      using one(2) by (simp add: calm_def list_all_length)
    from split Cons.prems(3) one(1)
    have "interleave (turns js) (s1, pcs[i := p], tr1) = (s', pcs', tr')"
      by simp
    from pass_calm [OF c1 this] show ?thesis
      by simp
  next
    case False
    then have holder: "\<forall>j<length pcs. inCS (pcs ! j) \<longrightarrow> j \<in> set js"
      using Cons.prems(2) by auto
    show ?thesis
    proof (cases "buildLock s \<or> \<not> i < length pcs")
      case True
      have "interleave [i, i, i, i] (s, pcs, tr) = (s, pcs, tr)"
      proof (cases "i < length pcs")
        case True
        with \<open>buildLock s \<or> \<not> i < length pcs\<close> False show ?thesis
          by (intro four_blocked) simp_all
      next
        case False
        then show ?thesis by (rule four_absent)
      qed
      with split Cons.prems(3) have "interleave (turns js) (s, pcs, tr) = (s', pcs', tr')"
        by simp
      from Cons.IH [OF Cons.prems(1) holder this] show ?thesis .
    next
      case free: False
      then have "calm s pcs"
        using Cons.prems(1) by (auto simp add: excl_def calm_def list_all_length)
      from pass_calm [OF this Cons.prems(3)] show ?thesis
        by simp
    qed
  qed
qed

text \<open>Two passes over all goroutines end every one of them, from any configuration with mutual exclusion.\<close>

lemma two_passes_end:
  assumes "excl s pcs"
      and "interleave (turns [0..<length pcs] @ turns [0..<length pcs]) (s, pcs, tr) = (s', pcs', tr')"
  shows "\<not> buildLock s' \<and> length pcs' = length pcs \<and> list_all ended pcs'"
proof -
  obtain s1 pcs1 tr1 where
    first: "interleave (turns [0..<length pcs]) (s, pcs, tr) = (s1, pcs1, tr1)"
    by (cases "interleave (turns [0..<length pcs]) (s, pcs, tr)") auto
  have "\<forall>j<length pcs. inCS (pcs ! j) \<longrightarrow> j \<in> set [0..<length pcs]"
    by simp
  from pass_excl [OF assms(1) this first] have c1: "calm s1 pcs1" and l1: "length pcs1 = length pcs"
    by simp_all
  from assms(2) first l1 have "interleave (turns [0..<length pcs1]) (s1, pcs1, tr1) = (s', pcs', tr')"
    by (simp add: interleave_append)
  from pass_calm [OF c1 this] l1 show ?thesis
    by (simp add: calm_def list_all_length)
qed

text \<open>
  Claim C1. Any number of admissions and releases start with the mutex free and run in
  any interleaving \<open>sch\<close> of their steps. At every moment: every write of \<open>True\<close> to the
  flag found it clear (\<open>separated\<close>): no two acquisitions without a release between them;
  at most one goroutine is between \<^verbatim>\<open>Lock\<close> and \<^verbatim>\<open>Unlock\<close>, and the mutex is held exactly
  then (\<open>excl\<close>): the check and the set are one step to every other goroutine; the flag
  is still clear when the goroutine that saw it clear sets it; the goroutines past the
  check are exactly those that acquired. With no release among them, at most one
  admission ever sees the flag clear, and none when the lease was held at the start.
  And the attempts do end: however far \<open>sch\<close> got, giving every goroutine four steps in
  turn, twice, ends them all with the mutex free; then, with no release among them,
  exactly one attempt is admitted and every other one is rejected (all are rejected
  when the lease was held at the start).
\<close>

theorem admission_mutual_exclusion:
  assumes "\<not> buildLock s" and "set pcs \<subseteq> {L62, R259}"
      and "interleave sch (s, pcs, []) = (s', pcs', tr)"
      and "interleave (turns [0..<length pcs] @ turns [0..<length pcs]) (s', pcs', tr) =
             (s'', pcs'', tr'')"
  shows "separated (isBusy s) tr
       \<and> isBusy s' = held (isBusy s) tr
       \<and> excl s' pcs'
       \<and> (\<forall>i<length pcs'. pcs' ! i = L68 \<longrightarrow> \<not> isBusy s')
       \<and> (\<forall>i<length pcs'. (pcs' ! i = L69 \<or> pcs' ! i = Admitted) = (Acq i \<in> set tr))
       \<and> (R259 \<notin> set pcs \<longrightarrow>
            (\<forall>i<length pcs'. \<forall>j<length pcs'. won (pcs' ! i) \<and> won (pcs' ! j) \<longrightarrow> i = j)
          \<and> (isBusy s \<longrightarrow> (\<forall>i<length pcs'. \<not> won (pcs' ! i))))
       \<and> (R259 \<notin> set pcs \<and> pcs \<noteq> [] \<and> set pcs' \<subseteq> {Admitted, Rejected} \<longrightarrow>
            (if isBusy s then (\<forall>i<length pcs'. pcs' ! i = Rejected)
             else (\<exists>i<length pcs'. pcs' ! i = Admitted
                     \<and> (\<forall>j<length pcs'. j \<noteq> i \<longrightarrow> pcs' ! j = Rejected))))
       \<and> \<not> buildLock s'' \<and> length pcs'' = length pcs
       \<and> set pcs'' \<subseteq> {Admitted, Rejected, Released}
       \<and> separated (isBusy s) tr''
       \<and> (\<forall>i<length pcs''. (pcs'' ! i = Admitted) = (Acq i \<in> set tr''))
       \<and> (R259 \<notin> set pcs \<and> pcs \<noteq> [] \<longrightarrow>
            (if isBusy s then (\<forall>i<length pcs''. pcs'' ! i = Rejected)
             else (\<exists>i<length pcs''. pcs'' ! i = Admitted
                     \<and> (\<forall>j<length pcs''. j \<noteq> i \<longrightarrow> pcs'' ! j = Rejected))))"
proof -
  note safe = admission_safety [OF assms(1,2,3)]
  have len: "length pcs' = length pcs"
    using interleave_length [of sch "(s, pcs, [])"] by (simp add: assms(3))
  have ex: "excl s' pcs'"
    using safe by blast
  have "interleave (turns [0..<length pcs'] @ turns [0..<length pcs']) (s', pcs', tr) =
          (s'', pcs'', tr'')"
    using assms(4) len by simp
  from two_passes_end [OF ex this] len
  have fin: "\<not> buildLock s''" "length pcs'' = length pcs" "list_all ended pcs''"
    by simp_all
  have whole: "interleave (sch @ turns [0..<length pcs] @ turns [0..<length pcs]) (s, pcs, []) =
                 (s'', pcs'', tr'')"
    using assms(3,4) by (simp only: interleave_append)
  note safe2 = admission_safety [OF assms(1,2) whole]
  have sub: "set pcs'' \<subseteq> {Admitted, Rejected, Released}"
    using fin(3) by (auto simp add: list_all_iff ended_def)
  have adm: "\<forall>i<length pcs''. (pcs'' ! i = Admitted) = (Acq i \<in> set tr'')"
  proof (intro allI impI)
    fix i
    assume i: "i < length pcs''"
    then have "pcs'' ! i \<noteq> L69"
      using fin(3) by (auto simp add: list_all_length ended_def)
    moreover have "(pcs'' ! i = L69 \<or> pcs'' ! i = Admitted) = (Acq i \<in> set tr'')"
      using safe2 i by blast
    ultimately show "(pcs'' ! i = Admitted) = (Acq i \<in> set tr'')"
      by simp
  qed
  have one: "if isBusy s then (\<forall>i<length pcs''. pcs'' ! i = Rejected)
             else (\<exists>i<length pcs''. pcs'' ! i = Admitted
                     \<and> (\<forall>j<length pcs''. j \<noteq> i \<longrightarrow> pcs'' ! j = Rejected))"
    if nr: "R259 \<notin> set pcs" and ne: "pcs \<noteq> []"
  proof -
    have "list_all attempt pcs"
      using assms(2) nr by (auto simp add: list_all_iff attempt_def)
    then have "list_all attempt pcs''"
      using interleave_attempts
        [of "(s, pcs, [])" "sch @ turns [0..<length pcs] @ turns [0..<length pcs]"]
      by (simp add: whole)
    with fin(3) have "set pcs'' \<subseteq> {Admitted, Rejected}"
      by (auto simp add: list_all_iff ended_def attempt_def)
    with safe2 nr ne show ?thesis
      by blast
  qed
  have sep2: "separated (isBusy s) tr''"
    using safe2 by blast
  from safe fin(1,2) sub sep2 adm one show ?thesis
    by blast
qed

theorem admission_mutual_exclusion_witness:
  "\<not> buildLock boot \<and> set [L62, L62, L62] \<subseteq> {L62, R259}
   \<and> interleave [1, 0, 1] (boot, [L62, L62, L62], []) =
       (boot\<lparr>buildLock := True\<rparr>, [L62, L68, L62], [])
   \<and> interleave (turns [0, 1, 2] @ turns [0, 1, 2])
         (boot\<lparr>buildLock := True\<rparr>, [L62, L68, L62], []) =
       (boot\<lparr>isBusy := True\<rparr>, [Rejected, Admitted, Rejected], [Acq 1])
   \<and> R259 \<notin> set [L62, L62, L62] \<and> [L62, L62, L62] \<noteq> []
   \<and> separated (isBusy boot) [Acq 1]
   \<and> excl (boot\<lparr>buildLock := True\<rparr>) [L62, L68, L62]
   \<and> interleave sampleSchedule (boot, [L62, L62, L62], []) =
       (boot\<lparr>isBusy := True\<rparr>, [Rejected, Admitted, Rejected], [Acq 1])
   \<and> set [Rejected, Admitted, Rejected] \<subseteq> {Admitted, Rejected}
   \<and> excl (boot\<lparr>isBusy := True\<rparr>) [Rejected, Admitted, Rejected]"
proof -
  have h1: "\<not> buildLock boot"
    by (simp add: boot_def)
  have h2: "set [L62, L62, L62] \<subseteq> {L62, R259}"
    by simp
  have u: "[0..<length [L62, L62, L62]] = [0, 1, 2]"
    by (simp add: upt_rec)
  have h3: "interleave [1, 0, 1] (boot, [L62, L62, L62], []) =
       (boot\<lparr>buildLock := True\<rparr>, [L62, L68, L62], [])"
    by (simp add: advance_def Lock_def Unlock_def boot_def)
  have t: "interleave (turns [0, 1, 2] @ turns [0, 1, 2])
         (boot\<lparr>buildLock := True\<rparr>, [L62, L68, L62], []) =
       (boot\<lparr>isBusy := True\<rparr>, [Rejected, Admitted, Rejected], [Acq 1])"
    by (simp add: turns_def advance_def Lock_def Unlock_def boot_def)
  then have h4: "interleave (turns [0..<length [L62, L62, L62]] @ turns [0..<length [L62, L62, L62]])
         (boot\<lparr>buildLock := True\<rparr>, [L62, L68, L62], []) =
       (boot\<lparr>isBusy := True\<rparr>, [Rejected, Admitted, Rejected], [Acq 1])"
    by (simp only: u)
  have g3: "interleave sampleSchedule (boot, [L62, L62, L62], []) =
       (boot\<lparr>isBusy := True\<rparr>, [Rejected, Admitted, Rejected], [Acq 1])"
    by (simp add: sampleSchedule_def advance_def Lock_def Unlock_def boot_def)
  have g: "interleave (turns [0, 1, 2] @ turns [0, 1, 2])
         (boot\<lparr>isBusy := True\<rparr>, [Rejected, Admitted, Rejected], [Acq 1]) =
       (boot\<lparr>isBusy := True\<rparr>, [Rejected, Admitted, Rejected], [Acq 1])"
    by (simp add: turns_def advance_def)
  then have g4: "interleave (turns [0..<length [L62, L62, L62]] @ turns [0..<length [L62, L62, L62]])
         (boot\<lparr>isBusy := True\<rparr>, [Rejected, Admitted, Rejected], [Acq 1]) =
       (boot\<lparr>isBusy := True\<rparr>, [Rejected, Admitted, Rejected], [Acq 1])"
    by (simp only: u)
  have a: "separated (isBusy boot) [Acq 1]"
    using admission_mutual_exclusion [OF h1 h2 h3 h4] by blast
  have b: "excl (boot\<lparr>buildLock := True\<rparr>) [L62, L68, L62]"
    using admission_mutual_exclusion [OF h1 h2 h3 h4] by blast
  have c: "excl (boot\<lparr>isBusy := True\<rparr>) [Rejected, Admitted, Rejected]"
    using admission_mutual_exclusion [OF h1 h2 g3 g4] by blast
  from h1 h2 h3 t g3 a b c show ?thesis
    by simp
qed

text \<open>
  One admission running alone does what the handler of the sequential model does at
  lines 62 to 69.
\<close>

lemma admission_alone:
  assumes "\<not> buildLock s"
  shows "interleave [0, 0, 0, 0] (s, [L62], []) =
           (if isBusy s then (s, [Rejected], []) else (s\<lparr>isBusy := True\<rparr>, [Admitted], [Acq 0]))"
proof -
  have "s\<lparr>buildLock := True, buildLock := False\<rparr> = s"
    "s\<lparr>buildLock := True, isBusy := True, buildLock := False\<rparr> = s\<lparr>isBusy := True\<rparr>"
    using assms by simp_all
  then show ?thesis
    using assms by (simp add: advance_def Lock_def Unlock_def)
qed

end
